theory Spec2Isabelle
  imports Complex_Main
begin

section \<open>Resonant-relaxation diffusion coefficients: a model of \<open>scrrpy/drr.py\<close>\<close>

text \<open>
  The module works on numpy arrays of floating-point numbers. The model reads every
  float as a real number and every one-dimensional array as a list, so a statement
  below is about the arithmetic the code writes down, free of rounding.
  A two-dimensional array is the list of its rows.
  Names that start with an underscore in the source carry the prefix \<open>u_\<close> here.
\<close>

subsection \<open>Exceptions\<close>

text \<open>
  The exceptions the module can raise: \<open>ValueError\<close> (raised by \<open>get_jf1\<close>,
  \<open>get_jf2\<close>, and by numpy for \<open>max\<close>, \<open>argmin\<close> or \<open>interp\<close> on an empty
  array), \<open>ZeroDivisionError\<close> (the ratio \<open>n / n_p\<close>), \<open>UnboundLocalError\<close>
  (a loop variable read after a loop that never ran) and \<open>TypeError\<close> (a call
  whose arguments do not bind to the parameters).
\<close>

datatype error = ValueError | ZeroDivisionError | UnboundLocalError | TypeError

subsection \<open>The coupling integrand\<close>

text \<open>
  \<open>A2_integrand\<close> is written for a batch: \<open>sma_p\<close> and \<open>j_p\<close> are arrays with one
  entry per sample and \<open>true_anomaly\<close> has four rows and one column per sample.
  \<open>A2_integrand_pt\<close> is what the array expression computes for one sample, whose
  column of \<open>true_anomaly\<close> is the four-tuple \<open>(t1, t2, t3, t4)\<close>; the batch
  function maps it over the samples. The exponents \<open>2*l+1\<close> and \<open>l-1\<close> are integers
  (\<open>l-1\<close> is negative for \<open>l = 0\<close>), hence \<open>power_int\<close>.
\<close>

type_synonym anomalies = "real \<times> real \<times> real \<times> real"

definition A2_integrand_pt ::
  "real \<Rightarrow> real \<Rightarrow> real \<Rightarrow> real \<Rightarrow> int \<times> int \<times> int \<Rightarrow> anomalies \<Rightarrow> real" where
  "A2_integrand_pt sma j sma_p j_p lnnp ta =
     (case lnnp of (l, n, n_p) \<Rightarrow>
      case ta of (t1, t2, t3, t4) \<Rightarrow>
        let cnnp = cos (t1 * real_of_int n) * cos (t2 * real_of_int n)
                   * cos (t3 * real_of_int n_p) * cos (t4 * real_of_int n_p);
            ecc = sqrt (1 - j\<^sup>2);
            eccp = sqrt (1 - j_p\<^sup>2);
            r_1 = sma * (1 - ecc\<^sup>2) / (1 - ecc * cos t1);
            r_2 = sma * (1 - ecc\<^sup>2) / (1 - ecc * cos t2);
            rp1 = sma_p * (1 - eccp\<^sup>2) / (1 - eccp * cos t3);
            rp2 = sma_p * (1 - eccp\<^sup>2) / (1 - eccp * cos t4)
        in cnnp / j\<^sup>2 / j_p\<^sup>2 / sma\<^sup>2 / sma_p ^ 4
           * power_int (min r_1 rp1 * min r_2 rp2) (2 * l + 1)
           / power_int (r_1 * r_2 * rp1 * rp2) (l - 1))"

definition A2_integrand ::
  "real \<Rightarrow> real \<Rightarrow> real list \<Rightarrow> real list \<Rightarrow> int \<times> int \<times> int \<Rightarrow> anomalies list \<Rightarrow> real list" where
  "A2_integrand sma j sma_p j_p lnnp true_anomaly =
     map (\<lambda>(a_p, jp, ta). A2_integrand_pt sma j a_p jp lnnp ta)
         (zip sma_p (zip j_p true_anomaly))"

subsection \<open>The normalization factor\<close>

text \<open>
  \<open>scipy.special.sph_harm\<close> is a library function; the model takes it as the
  parameter \<open>sph_harm\<close>, with scipy's argument order (order, degree, azimuth, polar
  angle) and a complex result.
\<close>

type_synonym sph_harm = "int \<Rightarrow> int \<Rightarrow> real \<Rightarrow> real \<Rightarrow> complex"

definition u_A2_norm_factor :: "sph_harm \<Rightarrow> int \<Rightarrow> int \<Rightarrow> int \<Rightarrow> real" where
  "u_A2_norm_factor sph_harm l n n_p =
     ((cmod (sph_harm n l 0 (pi / 2)))\<^sup>2
      * (cmod (sph_harm n_p l 0 (pi / 2)))\<^sup>2
      * (4 * pi / real_of_int (2 * l + 1))\<^sup>2) / real_of_int (2 * l + 1)"

subsection \<open>numpy functions\<close>

text \<open>
  \<open>np.logspace(start, stop, num)\<close>: \<open>num\<close> powers of ten whose exponents are evenly
  spaced from \<open>start\<close> to \<open>stop\<close>, both included (\<open>num = 1\<close> gives the single
  point \<open>10 ** start\<close>; the step is then multiplied by the index 0 only).
\<close>

definition logspace :: "real \<Rightarrow> real \<Rightarrow> nat \<Rightarrow> real list" where
  "logspace start stop num =
     map (\<lambda>i. 10 powr (start + real i * ((stop - start) / real (num - 1)))) [0..<num]"

text \<open>
  \<open>np.argmin\<close>: the index of the first occurrence of the minimum. numpy raises
  \<open>ValueError\<close> on an empty array; the callers below test for it before they call.
\<close>

fun argmin :: "real list \<Rightarrow> nat" where
  "argmin [] = 0"
| "argmin [x] = 0"
| "argmin (x # y # ys) =
     (let k = argmin (y # ys) in if x \<le> (y # ys) ! k then 0 else Suc k)"

text \<open>
  Indexing with a boolean mask, \<open>xs[mask]\<close>: the entries of \<open>xs\<close> at the
  positions where the mask holds, in order.
\<close>

definition mask_select :: "bool list \<Rightarrow> 'a list \<Rightarrow> 'a list" where
  "mask_select msk xs = map snd (filter fst (zip msk xs))"

text \<open>
  Assignment through a boolean mask, \<open>xs[mask] = vals\<close>: the masked positions of
  \<open>xs\<close> take the entries of \<open>vals\<close> in order.
\<close>

fun mask_assign :: "'a list \<Rightarrow> bool list \<Rightarrow> 'a list \<Rightarrow> 'a list" where
  "mask_assign [] msk vals = []"
| "mask_assign (x # xs) [] vals = x # xs"
| "mask_assign (x # xs) (True # msk) [] = x # xs"
| "mask_assign (x # xs) (True # msk) (v # vals) = v # mask_assign xs msk vals"
| "mask_assign (x # xs) (False # msk) vals = x # mask_assign xs msk vals"

text \<open>
  \<open>np.interp(x, xp, fp, left, right)\<close> for sample points \<open>xp\<close> in increasing order
  (numpy's result is documented as meaningless otherwise). The sample points and
  their values are walked as the list of pairs \<open>zip xp fp\<close>. For one query \<open>x\<close>:
  \<open>right\<close> above the last sample point, \<open>left\<close> below the first; otherwise numpy
  searches the index \<open>j\<close> with \<open>xp[j] <= x < xp[j+1]\<close> and returns \<open>fp[j]\<close> when
  \<open>j\<close> is the last index or \<open>xp[j] = x\<close>, and
  \<open>(fp[j+1] - fp[j]) / (xp[j+1] - xp[j]) * (x - xp[j]) + fp[j]\<close> otherwise.
  \<open>interp_seg\<close> finds that index by walking the pairs from the left.
  numpy raises \<open>ValueError\<close> when \<open>xp\<close> is empty or \<open>fp\<close> has another length.
\<close>

fun interp_seg :: "real \<Rightarrow> (real \<times> real) list \<Rightarrow> real" where
  "interp_seg x [] = 0"
| "interp_seg x [(x0, y0)] = y0"
| "interp_seg x ((x0, y0) # (x1, y1) # ps) =
     (if x < x1
      then (if x0 = x then y0 else (y1 - y0) / (x1 - x0) * (x - x0) + y0)
      else interp_seg x ((x1, y1) # ps))"

definition interp_pt :: "real \<Rightarrow> (real \<times> real) list \<Rightarrow> real \<Rightarrow> real \<Rightarrow> real" where
  "interp_pt x ps left right =
     (if fst (last ps) < x then right
      else if x < fst (hd ps) then left
      else interp_seg x ps)"

definition interp ::
  "real list \<Rightarrow> real list \<Rightarrow> real list \<Rightarrow> real \<Rightarrow> real \<Rightarrow> error + real list" where
  "interp x xp fp left right =
     (if xp = [] \<or> length fp \<noteq> length xp then Inl ValueError
      else Inr (map (\<lambda>v. interp_pt v (zip xp fp) left right) x))"

subsection \<open>The cusp model\<close>

text \<open>
  The class \<open>Cusp\<close> (module \<open>cusp\<close>) is imported by \<open>drr.py\<close>; the model takes
  what the code reads of it as a record of parameters: the scales \<open>rg\<close>, \<open>rh\<close> and
  \<open>a_gr1\<close> and the functions \<open>jlc(a)\<close>, \<open>nu_p(a, j)\<close>, \<open>d_nu_p(a, j)\<close>,
  \<open>nu_p1(a)\<close> and \<open>inverse_cumulative_a(u)\<close>, each applied entry by entry where the
  code passes an array.
\<close>

record Cusp =
  rg :: real
  rh :: real
  a_gr1 :: real
  jlc :: "real \<Rightarrow> real"
  nu_p :: "real \<Rightarrow> real \<Rightarrow> real"
  d_nu_p :: "real \<Rightarrow> real \<Rightarrow> real"
  nu_p1 :: "real \<Rightarrow> real"
  inverse_cumulative_a :: "real \<Rightarrow> real"

subsection \<open>The class \<open>DRR\<close>: construction\<close>

text \<open>
  \<open>DRR\<close> extends \<open>Cusp\<close> by the semi-major axis, the grid \<open>j\<close> of the test orbit,
  the precession frequencies \<open>omega\<close> on that grid and \<open>l_max\<close>.
  \<open>DRR_init\<close> is \<open>DRR.__init__\<close> after the call of \<open>Cusp.__init__\<close>, whose result
  is the given cusp \<open>c\<close>; \<open>Njs\<close> and \<open>l_max\<close> are the keyword arguments.
  The first point of the grid is \<open>10 ** log10(j_lc(sma))\<close>. Over the reals that is
  \<open>j_lc(sma)\<close>; in floating point it is \<open>j_lc(sma)\<close> up to rounding, on either
  side of it, so the theorem on the grid below bounds only the later points by
  \<open>j_lc(sma)\<close>. (At \<open>j_lc(sma) = 1/10\<close>, the value of the examples, the double
  \<open>10 ** log10(0.1)\<close> is \<open>0.1\<close> itself.)
\<close>

record DRR = Cusp +
  DRR_sma :: real
  DRR_j :: "real list"
  DRR_omega :: "real list"
  DRR_l_max :: int

definition DRR_init :: "Cusp \<Rightarrow> real \<Rightarrow> nat \<Rightarrow> int \<Rightarrow> DRR" where
  "DRR_init c sma Njs l_max =
     (let j = butlast (logspace (log 10 (jlc c sma)) 0 Njs)
      in Cusp.extend c
           (DRR.fields sma j (map (\<lambda>x. \<bar>nu_p c sma x\<bar>) j) l_max))"

subsection \<open>The class \<open>ResInterp\<close>: queries\<close>

text \<open>
  A \<open>ResInterp\<close> holds the target frequencies \<open>omega\<close>, the axis samples \<open>_af\<close> and
  the two tables \<open>_j1\<close> and \<open>_j2\<close>, one row per axis sample and one column per
  target frequency. (The attribute \<open>_jf\<close> is scratch space of the constructor and
  \<open>_cusp\<close> is read by the constructor only; the record leaves both out.)
\<close>

record ResInterp =
  RI_omega :: "real list"
  RI_af :: "real list"
  RI_j1 :: "real list list"
  RI_j2 :: "real list list"

text \<open>
  The shape the constructor gives the tables: one row per axis sample, one entry per
  target frequency in every row.
\<close>

definition wf_ResInterp :: "ResInterp \<Rightarrow> bool" where
  "wf_ResInterp ri \<longleftrightarrow>
     length (RI_j1 ri) = length (RI_af ri) \<and> length (RI_j2 ri) = length (RI_af ri)
     \<and> list_all (\<lambda>row. length row = length (RI_omega ri)) (RI_j1 ri)
     \<and> list_all (\<lambda>row. length row = length (RI_omega ri)) (RI_j2 ri)"

text \<open>
  \<open>get_jf1\<close> and \<open>get_jf2\<close>. \<open>np.argmin\<close> raises \<open>ValueError\<close> on an empty
  \<open>omega\<close>; \<open>sum(j > 0)\<close> counts the positive entries of the column.
\<close>

definition get_jf1 :: "ResInterp \<Rightarrow> real \<Rightarrow> real list \<Rightarrow> error + real list" where
  "get_jf1 ri omega af =
     (if RI_omega ri = [] then Inl ValueError
      else let i = argmin (map (\<lambda>w. \<bar>w - omega\<bar>) (RI_omega ri)) in
        if 1 / 10 ^ 8 < \<bar>RI_omega ri ! i - omega\<bar> then Inl ValueError
        else let j = map (\<lambda>row. row ! i) (RI_j1 ri); pos = map (\<lambda>v. 0 < v) j in
          if sum_list (map (\<lambda>b. if b then 1 else 0) pos) \<noteq> (0 :: nat)
          then interp af (mask_select pos (RI_af ri)) (mask_select pos j) 0 0
          else Inr (map (\<lambda>a. a * 0) af))"

definition get_jf2 :: "ResInterp \<Rightarrow> real \<Rightarrow> real list \<Rightarrow> error + real list" where
  "get_jf2 ri omega af =
     (if RI_omega ri = [] then Inl ValueError
      else let i = argmin (map (\<lambda>w. \<bar>w - omega\<bar>) (RI_omega ri)) in
        if 1 / 10 ^ 8 < \<bar>RI_omega ri ! i - omega\<bar> then Inl ValueError
        else let j = map (\<lambda>row. row ! i) (RI_j2 ri); pos = map (\<lambda>v. 0 < v) j in
          if sum_list (map (\<lambda>b. if b then 1 else 0) pos) \<noteq> (0 :: nat)
          then interp af (mask_select pos (RI_af ri)) (mask_select pos j) 0 0
          else Inr (map (\<lambda>a. a * 0) af))"

subsection \<open>The class \<open>ResInterp\<close>: construction\<close>

text \<open>
  \<open>np.argsort\<close>: the indices that sort the array. numpy's default sort does not
  promise an order among equal keys; the model takes the stable one.
\<close>

definition argsort :: "real list \<Rightarrow> nat list" where
  "argsort xs = map snd (sort_key fst (zip xs [0..<length xs]))"

text \<open>
  The closure \<open>get_j\<close> of \<open>ResInterp.__init__\<close>; the attributes \<open>self.omega\<close> and
  \<open>self._jf\<close> it reads are its first two arguments. \<open>np.interp\<close> raises when no
  sampled frequency is positive.
\<close>

definition get_j :: "real list \<Rightarrow> real list \<Rightarrow> real list \<Rightarrow> error + real list" where
  "get_j omega jf nup =
     (let pos = map (\<lambda>v. 0 < v) nup;
          jf' = mask_select pos jf;
          nup' = mask_select pos nup;
          s = argsort nup'
      in interp omega (map ((!) nup') s) (map ((!) jf') s) 0 0)"

text \<open>
  The angular-momentum samples of one axis sample \<open>a\<close>, the expression
  \<open>np.logspace(np.log10(jlc(a)), 0, 1001)[:-1]\<close> of both loops.
\<close>

definition jf_samples :: "'a Cusp_scheme \<Rightarrow> real \<Rightarrow> real list" where
  "jf_samples c a = butlast (logspace (log 10 (jlc c a)) 0 1001)"

text \<open>
  The first loop, over the axis samples below \<open>a_gr1\<close>: row \<open>i\<close> of \<open>_j1\<close> is
  \<open>get_j(nup)\<close> for the \<open>i\<close>-th of them. The argument \<open>i\<close> is the row the next
  sample writes. (A row index is below the number of axis samples, so the update is
  never out of range.)
\<close>

fun fill_below ::
  "'a Cusp_scheme \<Rightarrow> real list \<Rightarrow> real list \<Rightarrow> nat \<Rightarrow> real list list \<Rightarrow> error + real list list" where
  "fill_below c omega [] i j1 = Inr j1"
| "fill_below c omega (a # as) i j1 =
     (let jf = jf_samples c a; nup = map (nu_p c a) jf in
      case get_j omega jf nup of
        Inl e \<Rightarrow> Inl e
      | Inr row \<Rightarrow> fill_below c omega as (Suc i) (j1[i := row]))"

text \<open>
  The second loop, over the axis samples above \<open>a_gr1\<close>. Its \<open>i\<close>-th sample writes
  row \<open>i + last\<close>, which is the argument \<open>i\<close> here: the loop starts at \<open>last\<close>.
\<close>

fun fill_above ::
  "'a Cusp_scheme \<Rightarrow> real list \<Rightarrow> real list \<Rightarrow> nat \<Rightarrow> real list list \<times> real list list
     \<Rightarrow> error + real list list \<times> real list list" where
  "fill_above c omega [] i (j1, j2) = Inr (j1, j2)"
| "fill_above c omega (a # as) i (j1, j2) =
     (let jf = jf_samples c a; nup = map (nu_p c a) jf in
      case get_j omega jf nup of
        Inl e \<Rightarrow> Inl e
      | Inr row1 \<Rightarrow>
          if list_ex (\<lambda>v. v < 0) nup
          then (case get_j omega jf (map uminus nup) of
                  Inl e \<Rightarrow> Inl e
                | Inr row2 \<Rightarrow>
                    fill_above c omega as (Suc i) (j1[i := row1], j2[i := row2]))
          else fill_above c omega as (Suc i) (j1[i := row1], j2))"

text \<open>
  \<open>ResInterp.__init__\<close>. \<open>omega.max()\<close> raises \<open>ValueError\<close> on an empty array,
  and so does the \<open>.max()\<close> that picks \<open>a_min\<close> when no axis sample passes the mask.
  \<open>last = i + 1\<close> reads the variable of the first loop, which is unbound when that
  loop never ran.
\<close>

definition ResInterp_init :: "'a Cusp_scheme \<Rightarrow> real list \<Rightarrow> error + ResInterp" where
  "ResInterp_init c omega =
     (let af0 = logspace (log 10 (rg c)) (log 10 (rh c)) 1000 in
      if omega = [] then Inl ValueError
      else
        let cand = mask_select (map (\<lambda>a. a < a_gr1 c \<and> Max (set omega) < nu_p1 c a) af0) af0 in
        if cand = [] then Inl ValueError
        else
          let a_min = Max (set cand);
              af = logspace (log 10 a_min) (log 10 (rh c)) 1000;
              zeros = replicate (length af) (replicate (length omega) 0);
              below = mask_select (map (\<lambda>a. a < a_gr1 c) af) af;
              above = mask_select (map (\<lambda>a. a_gr1 c < a) af) af
          in case fill_below c omega below 0 zeros of
               Inl e \<Rightarrow> Inl e
             | Inr j1 \<Rightarrow>
                 if below = [] then Inl UnboundLocalError
                 else (case fill_above c omega above (length below) (j1, zeros) of
                         Inl e \<Rightarrow> Inl e
                       | Inr (j1', j2') \<Rightarrow>
                           Inr \<lparr>RI_omega = omega, RI_af = af, RI_j1 = j1', RI_j2 = j2'\<rparr>))"

subsection \<open>The class \<open>DRR\<close>: the Monte Carlo integrand\<close>

text \<open>
  \<open>DRR._res_intrp(ratio)\<close>. The \<open>lru_cache\<close> on it saves the construction when the
  same ratio comes again and does not change the result.
\<close>

definition u_res_intrp :: "DRR \<Rightarrow> real \<Rightarrow> error + ResInterp" where
  "u_res_intrp d ratio = ResInterp_init d (map (\<lambda>w. w * ratio) (DRR_omega d))"

text \<open>
  \<open>DRR._integrand\<close>: for one sample (\<open>u_integrand_pt\<close>) and for the batch.
  \<open>lnnp[-1]\<close> is \<open>n_p\<close>.
\<close>

definition u_integrand_pt ::
  "DRR \<Rightarrow> real \<Rightarrow> real \<Rightarrow> real \<Rightarrow> int \<times> int \<times> int \<Rightarrow> anomalies \<Rightarrow> real" where
  "u_integrand_pt d j sma_p j_p lnnp ta =
     2 * j_p / \<bar>d_nu_p d sma_p j_p\<bar> / real_of_int (snd (snd lnnp))
     * A2_integrand_pt (DRR_sma d) j sma_p j_p lnnp ta"

definition u_integrand ::
  "DRR \<Rightarrow> real \<Rightarrow> real list \<Rightarrow> real list \<Rightarrow> int \<times> int \<times> int \<Rightarrow> anomalies list \<Rightarrow> real list" where
  "u_integrand d j sma_p j_p lnnp true_anomaly =
     map (\<lambda>(a_p, jp, ta). u_integrand_pt d j a_p jp lnnp ta)
         (zip sma_p (zip j_p true_anomaly))"

text \<open>
  The batch integrand \<open>Clnnp\<close> that \<open>DRR._drr\<close> defines. A sample is a point of the
  unit 5-cube, one row of the array \<open>x\<close>: its first four coordinates become the true
  anomalies, the fifth the partner's semi-major axis. The closure reads \<open>j\<close>,
  \<open>omega\<close>, \<open>lnnp\<close> and \<open>ratio\<close> of \<open>_drr\<close>; they are arguments here.
\<close>

type_synonym sample = "real \<times> real \<times> real \<times> real \<times> real"

definition Clnnp ::
  "DRR \<Rightarrow> real \<Rightarrow> real \<Rightarrow> int \<times> int \<times> int \<Rightarrow> real \<Rightarrow> sample list \<Rightarrow> error + real list" where
  "Clnnp d j omega lnnp ratio x =
     (let true_anomaly = map (\<lambda>(x1, x2, x3, x4, x5). (x1 * pi, x2 * pi, x3 * pi, x4 * pi)) x;
          sma_f = map (\<lambda>(x1, x2, x3, x4, x5). inverse_cumulative_a d x5) x
      in case u_res_intrp d ratio of
           Inl e \<Rightarrow> Inl e
         | Inr ri \<Rightarrow>
            (case get_jf1 ri (omega * ratio) sma_f of
               Inl e \<Rightarrow> Inl e
             | Inr jf1 \<Rightarrow>
                (case get_jf2 ri (omega * ratio) sma_f of
                   Inl e \<Rightarrow> Inl e
                 | Inr jf2 \<Rightarrow>
                     let x0 = map (\<lambda>a. 0) sma_f;
                         ix1 = map (\<lambda>v. 0 < v) jf1;
                         ix2 = map (\<lambda>v. 0 < v) jf2;
                         x1 = mask_assign x0 ix1
                                (u_integrand d j (mask_select ix1 sma_f) (mask_select ix1 jf1)
                                   lnnp (mask_select ix1 true_anomaly));
                         x2 = mask_assign x1 ix2
                                (u_integrand d j (mask_select ix2 sma_f) (mask_select ix2 jf2)
                                   lnnp (mask_select ix2 true_anomaly))
                     in Inr x2)))"

subsection \<open>The class \<open>DRR\<close>: integration\<close>

text \<open>
  \<open>vegas.Integrator\<close> is a library class. A call \<open>integ(func, nitn, neval)\<close> draws
  random samples, calls \<open>func\<close> on batches of them and adapts its grid; the model
  takes it as a parameter \<open>integ\<close> that maps the state \<open>w\<close> it works on (the random
  generator and its grid) to its result and the new state, or to an exception.
  The result of a scalar integrand has the attributes \<open>val\<close> and \<open>var\<close>; it is not
  iterable, so \<open>integrate\<close> returns through its \<open>except TypeError\<close> branch.
\<close>

record RAvg =
  val :: real
  var :: real

type_synonym 'w integrator =
  "'w \<Rightarrow> (sample list \<Rightarrow> error + real list) \<Rightarrow> nat \<Rightarrow> real \<Rightarrow> error + RAvg \<times> 'w"

definition integrate ::
  "(sample list \<Rightarrow> error + real list) \<Rightarrow> 'w integrator \<Rightarrow> real \<Rightarrow> 'w
     \<Rightarrow> error + (real \<times> real) \<times> 'w" where
  "integrate func integ neval w =
     (case integ w func 10 neval of
        Inl e \<Rightarrow> Inl e
      | Inr (warmup, w1) \<Rightarrow>
          (case integ w1 func 10 neval of
             Inl e \<Rightarrow> Inl e
           | Inr (result, w2) \<Rightarrow> Inr ((val result, sqrt (var result)), w2)))"

text \<open>
  \<open>DRR._drr\<close>. \<open>lnnp[1]\<close> is \<open>n\<close> and \<open>lnnp[-1]\<close> is \<open>n_p\<close>; the ratio of the two
  integers raises \<open>ZeroDivisionError\<close> for \<open>n_p = 0\<close>.
\<close>

definition u_drr ::
  "sph_harm \<Rightarrow> 'w integrator \<Rightarrow> DRR \<Rightarrow> real \<Rightarrow> real \<Rightarrow> int \<times> int \<times> int \<Rightarrow> real \<Rightarrow> 'w
     \<Rightarrow> error + (real \<times> real) \<times> 'w" where
  "u_drr sph_harm integ d j omega lnnp neval w =
     (case lnnp of (l, n, n_p) \<Rightarrow>
        if n_p = 0 then Inl ZeroDivisionError
        else
          let ratio = real_of_int n / real_of_int n_p in
          case integrate (Clnnp d j omega lnnp ratio) integ neval w of
            Inl e \<Rightarrow> Inl e
          | Inr ((v, err), w') \<Rightarrow>
              Inr ((v * u_A2_norm_factor sph_harm l n n_p * (real_of_int n)\<^sup>2,
                    err * u_A2_norm_factor sph_harm l n n_p * (real_of_int n)\<^sup>2), w'))"

text \<open>
  The body of \<open>DRR.drr\<close>: one call of \<open>_drr\<close> per grid point, in order; row \<open>i\<close> of
  the result is the pair (value, error) of grid point \<open>i\<close>. The progress bar only
  prints.
\<close>

fun drr_rows ::
  "sph_harm \<Rightarrow> 'w integrator \<Rightarrow> DRR \<Rightarrow> int \<times> int \<times> int \<Rightarrow> real \<Rightarrow> (real \<times> real) list \<Rightarrow> 'w
     \<Rightarrow> error + (real \<times> real) list \<times> 'w" where
  "drr_rows sph_harm integ d lnnp neval [] w = Inr ([], w)"
| "drr_rows sph_harm integ d lnnp neval ((j_i, omegai) # rest) w =
     (case u_drr sph_harm integ d j_i omegai lnnp neval w of
        Inl e \<Rightarrow> Inl e
      | Inr (row, w1) \<Rightarrow>
          (case drr_rows sph_harm integ d lnnp neval rest w1 of
             Inl e \<Rightarrow> Inl e
           | Inr (rows, w2) \<Rightarrow> Inr (row # rows, w2)))"

definition drr_body ::
  "sph_harm \<Rightarrow> 'w integrator \<Rightarrow> DRR \<Rightarrow> int \<Rightarrow> int \<Rightarrow> int \<Rightarrow> real \<Rightarrow> 'w
     \<Rightarrow> error + (real \<times> real) list \<times> 'w" where
  "drr_body sph_harm integ d l n n_p neval w =
     drr_rows sph_harm integ d (l, n, n_p) neval (zip (DRR_j d) (DRR_omega d)) w"

text \<open>
  \<open>DRR.drr\<close> as decorated with \<open>lru_cache()\<close>. The decorator is applied once, when
  the class body runs, so there is one cache, shared by all instances. It holds at
  most 128 entries (the default \<open>maxsize\<close>) and drops the least recently used one
  when a new entry arrives at a full cache; the model keeps it as a list, the most
  recently used entry first.

  The key of a call is built from the call as it is written: the positional
  arguments, \<open>self\<close> first, then the keyword arguments in the order written, each
  with its name. So \<open>drr(3, 1, 3)\<close>, \<open>drr(3, 1, 3, 1000.0)\<close> and
  \<open>drr(3, 1, 3, neval=1000.0)\<close> have three different keys although they bind the
  same values. The entries of a key are compared with \<open>==\<close>: numbers by value (an
  int equals the float of the same value, so the key holds them as reals) and the
  instance by identity (\<open>drr.py\<close> defines no \<open>__eq__\<close> or \<open>__hash__\<close>, and \<open>Cusp\<close>
  is taken not to either), which is the number \<open>c_id\<close> here.

  A \<open>drr_call\<close> is a call as written: the instance (its identity \<open>c_id\<close> and its
  attributes \<open>c_self\<close>), the number \<open>c_npos\<close> of the parameters \<open>l, n, n_p, neval\<close>
  that are passed positionally, the names \<open>c_kw\<close> passed by keyword, in order, and
  the values. \<open>l\<close>, \<open>n\<close> and \<open>n_p\<close> are Python ints. \<open>c_neval\<close> is read only when
  the call passes \<open>neval\<close>; otherwise the default \<open>1e3\<close> applies.
\<close>

definition drr_params :: "string list" where
  "drr_params = [''l'', ''n'', ''n_p'', ''neval'']"

record drr_call =
  c_id :: nat
  c_self :: DRR
  c_npos :: nat
  c_kw :: "string list"
  c_l :: int
  c_n :: int
  c_n_p :: int
  c_neval :: real

text \<open>
  \<open>binds\<close>: the call gives every parameter at most one value and gives \<open>l\<close>, \<open>n\<close>
  and \<open>n_p\<close> one. Any other call raises \<open>TypeError\<close> when the wrapped function is
  entered, after a lookup that cannot hit because such a call is never stored; the
  model refuses it before the lookup.
\<close>

definition binds :: "drr_call \<Rightarrow> bool" where
  "binds cl \<longleftrightarrow>
     c_npos cl \<le> 4 \<and> distinct (c_kw cl)
     \<and> list_all (\<lambda>k. k \<in> set (drop (c_npos cl) drr_params)) (c_kw cl)
     \<and> list_all (\<lambda>p. p \<in> set (c_kw cl)) (drop (c_npos cl) (take 3 drr_params))"

definition passes_neval :: "drr_call \<Rightarrow> bool" where
  "passes_neval cl \<longleftrightarrow> c_npos cl = 4 \<or> ''neval'' \<in> set (c_kw cl)"

definition arg_values :: "drr_call \<Rightarrow> (string \<times> real) list" where
  "arg_values cl =
     [(''l'', real_of_int (c_l cl)), (''n'', real_of_int (c_n cl)),
      (''n_p'', real_of_int (c_n_p cl)), (''neval'', c_neval cl)]"

text \<open>
  The key of a call (\<open>functools._make_key\<close>): the identity of the instance, the
  values passed positionally, and the keyword arguments with their names.
\<close>

type_synonym drr_key = "nat \<times> real list \<times> (string \<times> real) list"

type_synonym drr_cache = "(drr_key \<times> (real \<times> real) list) list"

definition make_key :: "drr_call \<Rightarrow> drr_key" where
  "make_key cl =
     (c_id cl, map snd (take (c_npos cl) (arg_values cl)),
      map (\<lambda>k. (k, case map_of (arg_values cl) k of Some v \<Rightarrow> v | None \<Rightarrow> 0)) (c_kw cl))"

text \<open>
  The cached \<open>drr\<close>. A hit returns the stored array, moves its entry to the front
  and runs nothing; a miss runs the body and stores its result at the front; an
  exception stores nothing. The state is the cache together with the state of the
  integrator. (A hit returns the stored array object itself; the model takes it
  that no caller modifies a returned array in place.)
\<close>

definition drr ::
  "sph_harm \<Rightarrow> 'w integrator \<Rightarrow> drr_call \<Rightarrow> drr_cache \<times> 'w
     \<Rightarrow> error + (real \<times> real) list \<times> (drr_cache \<times> 'w)" where
  "drr sph_harm integ cl s =
     (case s of (cache, w) \<Rightarrow>
        if \<not> binds cl then Inl TypeError
        else
          (case map_of cache (make_key cl) of
             Some r \<Rightarrow>
               Inr (r, ((make_key cl, r) # filter (\<lambda>e. fst e \<noteq> make_key cl) cache, w))
           | None \<Rightarrow>
               (case drr_body sph_harm integ (c_self cl) (c_l cl) (c_n cl) (c_n_p cl)
                       (if passes_neval cl then c_neval cl else 1000) w of
                  Inl e \<Rightarrow> Inl e
                | Inr (r, w') \<Rightarrow> Inr (r, (take 128 ((make_key cl, r) # cache), w')))))"

text \<open>
  A sequence of calls of \<open>drr\<close>, made one after the other on the shared cache; it
  ends at the first exception.
\<close>

fun drr_calls ::
  "sph_harm \<Rightarrow> 'w integrator \<Rightarrow> drr_call list \<Rightarrow> drr_cache \<times> 'w \<Rightarrow> error + drr_cache \<times> 'w" where
  "drr_calls sph_harm integ [] s = Inr s"
| "drr_calls sph_harm integ (cl # cls) s =
     (case drr sph_harm integ cl s of
        Inl e \<Rightarrow> Inl e
      | Inr (r, s') \<Rightarrow> drr_calls sph_harm integ cls s')"

text \<open>
  \<open>cached_within k r p cache\<close>: the cache holds the array \<open>r\<close> under the key \<open>k\<close>,
  and at most \<open>p\<close> entries are more recently used.
\<close>

definition cached_within :: "drr_key \<Rightarrow> (real \<times> real) list \<Rightarrow> nat \<Rightarrow> drr_cache \<Rightarrow> bool" where
  "cached_within k r p cache \<longleftrightarrow>
     (\<exists>pre post. cache = pre @ (k, r) # post \<and> k \<notin> fst ` set pre \<and> length pre \<le> p)"

subsection \<open>Names for parts of \<open>ResInterp.__init__\<close>\<close>

text \<open>
  The statements below about the constructor name its intermediate values:
  \<open>cand_axis\<close> are the first axis samples that pass the mask
  \<open>(af < a_gr1) * (omega.max() < nu_p1(af))\<close>, whose maximum is \<open>a_min\<close>;
  \<open>axis\<close> is the final value of \<open>_af\<close>; \<open>below_axis\<close> and \<open>above_axis\<close> are the
  samples the two loops run over; \<open>row1\<close> is \<open>get_j(nup)\<close> at an axis sample,
  \<open>row2\<close> is \<open>get_j(-nup)\<close> and \<open>flips\<close> is the test \<open>any(nup < 0)\<close>.
\<close>

definition cand_axis :: "'a Cusp_scheme \<Rightarrow> real list \<Rightarrow> real list" where
  "cand_axis c omega =
     filter (\<lambda>a. a < a_gr1 c \<and> Max (set omega) < nu_p1 c a)
       (logspace (log 10 (rg c)) (log 10 (rh c)) 1000)"

definition axis :: "'a Cusp_scheme \<Rightarrow> real list \<Rightarrow> real list" where
  "axis c omega = logspace (log 10 (Max (set (cand_axis c omega)))) (log 10 (rh c)) 1000"

definition below_axis :: "'a Cusp_scheme \<Rightarrow> real list \<Rightarrow> real list" where
  "below_axis c omega = filter (\<lambda>a. a < a_gr1 c) (axis c omega)"

definition above_axis :: "'a Cusp_scheme \<Rightarrow> real list \<Rightarrow> real list" where
  "above_axis c omega = filter (\<lambda>a. a_gr1 c < a) (axis c omega)"

definition row1 :: "'a Cusp_scheme \<Rightarrow> real list \<Rightarrow> real \<Rightarrow> error + real list" where
  "row1 c omega a = get_j omega (jf_samples c a) (map (nu_p c a) (jf_samples c a))"

definition row2 :: "'a Cusp_scheme \<Rightarrow> real list \<Rightarrow> real \<Rightarrow> error + real list" where
  "row2 c omega a =
     get_j omega (jf_samples c a) (map uminus (map (nu_p c a) (jf_samples c a)))"

definition flips :: "'a Cusp_scheme \<Rightarrow> real \<Rightarrow> bool" where
  "flips c a = list_ex (\<lambda>v. v < 0) (map (nu_p c a) (jf_samples c a))"

subsection \<open>Names for the statement about \<open>get_jf1\<close> and \<open>get_jf2\<close>\<close>





subsection \<open>Concrete inputs\<close>

text \<open>
  Inputs at which the functions above are run in the examples below. \<open>toy_cusp\<close>
  is a small cusp model: gravitational radius 1, influence radius 10, a critical
  axis beyond the influence radius, a constant loss-cone angular momentum \<open>1/10\<close>
  and a precession frequency equal to the angular momentum. \<open>toy_drr\<close> is the
  \<open>DRR\<close> built on it with \<open>sma = 1\<close> and \<open>Njs = 3\<close>.
  \<open>toy_integ\<close> is an integrator that reports the value 1 with variance 0 and counts
  its calls in its state. \<open>sph_harm_deg3\<close> holds the values of the degree-3
  spherical harmonics of orders 1 and 3 on the equator at azimuth 0,
  \<open>sqrt(21/pi)/8\<close> and \<open>- sqrt(35/pi)/8\<close>.
\<close>

definition toy_cusp :: Cusp where
  "toy_cusp = \<lparr>rg = 1, rh = 10, a_gr1 = 100, jlc = (\<lambda>a. 1 / 10), nu_p = (\<lambda>a j. j),
     d_nu_p = (\<lambda>a j. 1), nu_p1 = (\<lambda>a. if a \<le> 1 then 1 else 0),
     inverse_cumulative_a = (\<lambda>u. 1 + 9 * u)\<rparr>"

definition toy_drr :: DRR where
  "toy_drr = DRR_init toy_cusp 1 3 1"

definition toy_integ :: "nat integrator" where
  "toy_integ w func nitn neval = Inr (\<lparr>val = 1, var = 0\<rparr>, Suc w)"

definition sph_harm_deg3 :: sph_harm where
  "sph_harm_deg3 m n theta phi =
     (if n = 3 \<and> m = 1 then complex_of_real (sqrt (21 / pi) / 8)
      else if n = 3 \<and> m = 3 then complex_of_real (- sqrt (35 / pi) / 8)
      else 0)"

text \<open>
  \<open>toy_call npos kw neval\<close> is a call of \<open>drr\<close> on the instance \<open>toy_drr\<close>, of
  identity 0, for \<open>(l, n, n') = (3, 1, 3)\<close>: \<open>toy_call 4 [] 1000\<close> is
  \<open>drr(3, 1, 3, 1000.0)\<close> and \<open>toy_call 3 [''neval''] 1000\<close> is
  \<open>drr(3, 1, 3, neval=1000.0)\<close>. \<open>toy_rows\<close> is the array such a call returns with
  \<open>toy_integ\<close> and \<open>sph_harm_deg3\<close>.
\<close>

definition toy_call :: "nat \<Rightarrow> string list \<Rightarrow> real \<Rightarrow> drr_call" where
  "toy_call npos kw neval =
     \<lparr>c_id = 0, c_self = toy_drr, c_npos = npos, c_kw = kw, c_l = 3, c_n = 1, c_n_p = 3,
      c_neval = neval\<rparr>"

definition toy_rows :: "(real \<times> real) list" where
  "toy_rows = [(15 / 1792, 0), (15 / 1792, 0)]"

text \<open>
  \<open>toy_ri\<close> is the \<open>ResInterp\<close> that the constructor builds from \<open>toy_cusp\<close> and
  the single target frequency \<open>1/10\<close> (lemma \<open>toy_init\<close> below): the axis samples
  run from 1 to 10, every entry of the branch-1 table is \<open>1/10\<close> and the branch-2
  table is zero.
\<close>

definition toy_ri :: ResInterp where
  "toy_ri = \<lparr>RI_omega = [1 / 10], RI_af = logspace 0 1 1000,
     RI_j1 = map (\<lambda>a. [1 / 10]) (logspace 0 1 1000),
     RI_j2 = map (\<lambda>a. [0]) (logspace 0 1 1000)\<rparr>"

text \<open>
  \<open>flip_cusp\<close> is a cusp model whose precession frequency changes sign above the
  critical axis: \<open>nu_p(a, j) = j\<close> for \<open>a <= 1\<close> and \<open>j - 1/2\<close> beyond. Its critical
  axis \<open>a_gr1 = 10 ** (1/999)\<close> is the second of the 1000 axis samples between 1 and
  10, \<open>np.logspace(0, 1, 1000)[1]\<close>. \<open>flip_drr\<close> is the \<open>DRR\<close> built on it with
  \<open>sma = 1\<close> and \<open>Njs = 2\<close>; its grid is the single point \<open>1/10\<close>.
\<close>

definition flip_cusp :: Cusp where
  "flip_cusp = \<lparr>rg = 1, rh = 10, a_gr1 = 10 powr (1 / 999), jlc = (\<lambda>a. 1 / 10),
     nu_p = (\<lambda>a j. if a \<le> 1 then j else j - 1 / 2),
     d_nu_p = (\<lambda>a j. 1), nu_p1 = (\<lambda>a. if a \<le> 1 then 1 else 0),
     inverse_cumulative_a = (\<lambda>u. 1 + 9 * u)\<rparr>"

definition flip_drr :: DRR where
  "flip_drr = DRR_init flip_cusp 1 2 1"

section \<open>Properties\<close>

subsection \<open>The normalization factor\<close>

text \<open>
  Claim C7. For every harmonic \<open>l\<close> and indices \<open>n\<close>, \<open>n'\<close> the normalization factor
  is unchanged when \<open>n\<close> and \<open>n'\<close> are swapped, and for \<open>l = 0\<close>, \<open>n = n' = 0\<close> it is
  \<open>(4 pi)^2\<close> times the two squared spherical-harmonic evaluations.
\<close>

theorem u_A2_norm_factor_symmetric:
  "u_A2_norm_factor sph_harm l n n_p = u_A2_norm_factor sph_harm l n_p n
   \<and> u_A2_norm_factor sph_harm 0 0 0
       = (4 * pi)\<^sup>2 * ((cmod (sph_harm 0 0 0 (pi / 2)))\<^sup>2 * (cmod (sph_harm 0 0 0 (pi / 2)))\<^sup>2)"
  by (simp add: u_A2_norm_factor_def mult.commute)

subsection \<open>The coupling integrand\<close>

text \<open>
  Claim C10. \<open>A2_integrand\<close> does not change when the temporal harmonic index \<open>n\<close> is
  negated, nor when \<open>n'\<close> is: both enter only through cosines of the true-anomaly
  phases, and the cosine is even.
\<close>

theorem A2_integrand_negate_index:
  "A2_integrand sma j sma_p j_p (l, - n, n_p) true_anomaly
     = A2_integrand sma j sma_p j_p (l, n, n_p) true_anomaly
   \<and> A2_integrand sma j sma_p j_p (l, n, - n_p) true_anomaly
     = A2_integrand sma j sma_p j_p (l, n, n_p) true_anomaly"
  by (simp add: A2_integrand_def A2_integrand_pt_def)

subsection \<open>The grid of the test orbit\<close>

lemma length_logspace: "length (logspace s t n) = n"
  by (simp add: logspace_def)

lemma logspace_nth:
  "i < n \<Longrightarrow> logspace s t n ! i = 10 powr (s + real i * ((t - s) / real (n - 1)))"
  by (simp add: logspace_def)

lemma butlast_logspace:
  "butlast (logspace s t n)
     = map (\<lambda>i. 10 powr (s + real i * ((t - s) / real (n - 1)))) [0..<n - 1]"
  by (cases n) (simp_all add: logspace_def map_butlast)

lemma DRR_init_j:
  "DRR_j (DRR_init c sma Njs l_max) = butlast (logspace (log 10 (jlc c sma)) 0 Njs)"
  by (simp add: DRR_init_def Let_def Cusp.defs DRR.defs)

lemma DRR_init_omega:
  "DRR_omega (DRR_init c sma Njs l_max)
     = map (\<lambda>x. \<bar>nu_p c sma x\<bar>) (DRR_j (DRR_init c sma Njs l_max))"
  by (simp add: DRR_init_def Let_def Cusp.defs DRR.defs)

lemma toy_grid: "DRR_j (DRR_init toy_cusp 1 3 1) = [1 / 10, 10 powr (- (1 / 2))]"
  by (simp add: DRR_init_j butlast_logspace toy_cusp_def upt_conv_Cons log_divide)




subsection \<open>The scaling of the per-point result\<close>

lemma toy_integrate: "integrate func toy_integ neval w = Inr ((1, 0), Suc (Suc w))"
  by (simp add: integrate_def toy_integ_def)

lemma norm_deg3: "u_A2_norm_factor sph_harm_deg3 3 1 3 = 15 / 1792"
  by (simp add: u_A2_norm_factor_def sph_harm_deg3_def power2_eq_square norm_divide)

text \<open>
  Claim C2, as the code has it. When \<open>integrate\<close> returns the pair \<open>(v, err)\<close>,
  \<open>_drr\<close> returns both entries multiplied by the normalization factor for
  \<open>(l, n, n')\<close> and by \<open>n^2\<close>, the square of \<open>lnnp[1]\<close>: the index \<open>n\<close>, not the
  partner index \<open>n'\<close>.
\<close>

theorem u_drr_scaling:
  assumes "n_p \<noteq> 0"
    and "integrate (Clnnp d j omega (l, n, n_p) (real_of_int n / real_of_int n_p)) integ neval w
           = Inr ((v, err), w')"
  shows "u_drr sph_harm integ d j omega (l, n, n_p) neval w
           = Inr ((v * u_A2_norm_factor sph_harm l n n_p * (real_of_int n)\<^sup>2,
                   err * u_A2_norm_factor sph_harm l n n_p * (real_of_int n)\<^sup>2), w')"
  using assms by (simp add: u_drr_def)

text \<open>
  The theorem at \<open>(l, n, n') = (3, 1, 3)\<close> with the integrator \<open>toy_integ\<close>: the raw
  integral is \<open>(1, 0)\<close>, the normalization factor is \<open>15/1792\<close>, and the result is
  \<open>15/1792 * 1^2\<close>.
\<close>

theorem u_drr_scaling_witness:
  "u_drr sph_harm_deg3 toy_integ toy_drr (1 / 10) (1 / 10) (3, 1, 3) 1000 0
     = Inr ((15 / 1792, 0), 2)"
  using u_drr_scaling [of 3 toy_drr "1 / 10" "1 / 10" 3 1 toy_integ 1000 0 1 0 2 sph_harm_deg3]
  by (simp add: toy_integrate norm_deg3)

text \<open>
  Claim C2 as stated multiplies by the square of the partner index \<open>n'\<close>. At
  \<open>(l, n, n') = (3, 1, 3)\<close> the raw integral is \<open>(1, 0)\<close> and the result of \<open>_drr\<close>
  is not the raw integral times the normalization factor times \<open>3^2\<close>.
\<close>

theorem u_drr_scaling_counterexample:
  "integrate (Clnnp toy_drr (1 / 10) (1 / 10) (3, 1, 3) (real_of_int 1 / real_of_int 3))
       toy_integ 1000 0
     = Inr ((1, 0), 2)
   \<and> u_drr sph_harm_deg3 toy_integ toy_drr (1 / 10) (1 / 10) (3, 1, 3) 1000 0
     \<noteq> Inr ((1 * u_A2_norm_factor sph_harm_deg3 3 1 3 * (real_of_int 3)\<^sup>2,
              0 * u_A2_norm_factor sph_harm_deg3 3 1 3 * (real_of_int 3)\<^sup>2), 2)"
  by (simp add: u_drr_def toy_integrate norm_deg3)

subsection \<open>Lemmas: masks, \<open>argmin\<close> and the table lookup\<close>

lemma argmin_less: "xs \<noteq> [] \<Longrightarrow> argmin xs < length xs"
  by (induction xs rule: argmin.induct) (auto simp: Let_def)

lemma argmin_le: "x \<in> set xs \<Longrightarrow> xs ! argmin xs \<le> x"
proof (induction xs arbitrary: x rule: argmin.induct)
  case 1 then show ?case by simp
next
  case (2 y) then show ?case by simp
next
  case (3 a b ys)
  show ?case
  proof (cases "x = a")
    case True
    then show ?thesis by (auto simp: Let_def)
  next
    case False
    with 3 have "x \<in> set (b # ys)" by simp
    with 3 have "(b # ys) ! argmin (b # ys) \<le> x" by blast
    then show ?thesis by (auto simp: Let_def)
  qed
qed

lemma length_mask_select:
  "length msk = length xs \<Longrightarrow> length (mask_select msk xs) = length (filter id msk)"
  by (induction msk xs rule: list_induct2) (auto simp: mask_select_def)

lemma count_true_pos:
  "sum_list (map (\<lambda>b. if b then 1 else 0) pos) \<noteq> (0 :: nat) \<longleftrightarrow> filter id pos \<noteq> []"
  by (induction pos) auto

lemma nearest_far_iff:
  assumes "ws \<noteq> []"
  shows "(e < \<bar>ws ! argmin (map (\<lambda>w. \<bar>w - x\<bar>) ws) - x\<bar>) \<longleftrightarrow> (\<forall>w \<in> set ws. e < \<bar>w - x\<bar>)"
proof -
  let ?ds = "map (\<lambda>w. \<bar>w - x\<bar>) ws"
  have ne: "?ds \<noteq> []" using assms by simp
  have i: "argmin ?ds < length ws" using argmin_less [OF ne] by simp
  then have eq: "?ds ! argmin ?ds = \<bar>ws ! argmin ?ds - x\<bar>" by simp
  show ?thesis
  proof
    assume far: "e < \<bar>ws ! argmin ?ds - x\<bar>"
    show "\<forall>w \<in> set ws. e < \<bar>w - x\<bar>"
    proof
      fix w assume "w \<in> set ws"
      then have "\<bar>w - x\<bar> \<in> set ?ds" by simp
      then have "?ds ! argmin ?ds \<le> \<bar>w - x\<bar>" by (rule argmin_le)
      with far eq show "e < \<bar>w - x\<bar>" by simp
    qed
  next
    assume "\<forall>w \<in> set ws. e < \<bar>w - x\<bar>"
    moreover have "ws ! argmin ?ds \<in> set ws" using i by simp
    ultimately show "e < \<bar>ws ! argmin ?ds - x\<bar>" by blast
  qed
qed

lemma interp_ok:
  "xp \<noteq> [] \<Longrightarrow> length fp = length xp \<Longrightarrow>
   interp x xp fp l r = Inr (map (\<lambda>v. interp_pt v (zip xp fp) l r) x)"
  by (simp add: interp_def)

lemma lookup_returns:
  assumes "length j = length afs"
  shows "\<exists>r. (let pos = map (\<lambda>v. 0 < v) j in
           if sum_list (map (\<lambda>b. if b then 1 else 0) pos) \<noteq> (0 :: nat)
           then interp af (mask_select pos afs) (mask_select pos j) 0 0
           else Inr (map (\<lambda>a. a * 0) af)) = Inr r"
proof -
  define pos where "pos = map (\<lambda>v. 0 < v) j"
  have l1: "length (mask_select pos afs) = length (filter id pos)"
    using assms by (simp add: pos_def length_mask_select)
  have l2: "length (mask_select pos j) = length (filter id pos)"
    by (simp add: pos_def length_mask_select)
  show ?thesis
  proof (cases "filter id pos = []")
    case True
    then show ?thesis
      unfolding Let_def pos_def [symmetric] count_true_pos by simp
  next
    case False
    with l1 have "mask_select pos afs \<noteq> []" by auto
    moreover have "length (mask_select pos j) = length (mask_select pos afs)"
      using l1 l2 by simp
    ultimately show ?thesis
      unfolding Let_def pos_def [symmetric] count_true_pos
      using False by (simp add: interp_ok)
  qed
qed

lemma get_jf1_raises:
  assumes "length (RI_j1 ri) = length (RI_af ri)"
  shows "isl (get_jf1 ri w af) \<longleftrightarrow> (\<forall>x \<in> set (RI_omega ri). 1 / 10 ^ 8 < \<bar>x - w\<bar>)"
proof (cases "RI_omega ri = []")
  case True
  then show ?thesis by (simp add: get_jf1_def)
next
  case False
  define i where "i = argmin (map (\<lambda>x. \<bar>x - w\<bar>) (RI_omega ri))"
  define j where "j = map (\<lambda>row. row ! i) (RI_j1 ri)"
  have len: "length j = length (RI_af ri)" using assms by (simp add: j_def)
  note far = nearest_far_iff [OF False, of "1 / 10 ^ 8" w, folded i_def]
  show ?thesis
  proof (cases "1 / 10 ^ 8 < \<bar>RI_omega ri ! i - w\<bar>")
    case True
    then have "get_jf1 ri w af = Inl ValueError"
      using False by (simp add: get_jf1_def i_def Let_def)
    with True far show ?thesis by simp
  next
    case near: False
    obtain r where "(let pos = map (\<lambda>v. 0 < v) j in
           if sum_list (map (\<lambda>b. if b then 1 else 0) pos) \<noteq> (0 :: nat)
           then interp af (mask_select pos (RI_af ri)) (mask_select pos j) 0 0
           else Inr (map (\<lambda>a. a * 0) af)) = Inr r"
      using lookup_returns [OF len] by blast
    then have "get_jf1 ri w af = Inr r"
      using False near unfolding get_jf1_def i_def [symmetric] j_def [symmetric] Let_def
      by simp
    with near far show ?thesis by simp
  qed
qed

subsection \<open>Lemmas: the batch integrand\<close>

lemma length_mask_assign: "length (mask_assign xs msk vals) = length xs"
  by (induction xs msk vals rule: mask_assign.induct) auto

lemma mask_select_Cons:
  "mask_select (b # msk) (y # ys) = (if b then y # mask_select msk ys else mask_select msk ys)"
  by (simp add: mask_select_def)

lemma mask_assign_map_select:
  "length xs = length msk \<Longrightarrow> length msk = length ys \<Longrightarrow> k < length xs \<Longrightarrow>
   mask_assign xs msk (map f (mask_select msk ys)) ! k = (if msk ! k then f (ys ! k) else xs ! k)"
proof (induction xs msk ys arbitrary: k rule: list_induct3)
  case Nil
  then show ?case by simp
next
  case (Cons x xs b msk y ys)
  then show ?case
    by (cases b; cases k) (simp_all add: mask_select_Cons)
qed

lemma zip_mask_select:
  "length xs = length msk \<Longrightarrow> length msk = length ys \<Longrightarrow>
   zip (mask_select msk xs) (mask_select msk ys) = mask_select msk (zip xs ys)"
  by (induction xs msk ys rule: list_induct3) (simp_all add: mask_select_def)

lemma u_integrand_select:
  assumes "length sma_f = length msk" "length jf = length msk" "length ta = length msk"
  shows "u_integrand d j (mask_select msk sma_f) (mask_select msk jf) lnnp (mask_select msk ta)
     = map (\<lambda>(a_p, jp, t). u_integrand_pt d j a_p jp lnnp t) (mask_select msk (zip sma_f (zip jf ta)))"
  using assms by (simp add: u_integrand_def zip_mask_select)

lemma get_jf1_length: "get_jf1 ri w af = Inr r \<Longrightarrow> length r = length af"
  by (auto simp: get_jf1_def interp_def Let_def split: if_splits)

lemma get_jf2_length: "get_jf2 ri w af = Inr r \<Longrightarrow> length r = length af"
  by (auto simp: get_jf2_def interp_def Let_def split: if_splits)

subsection \<open>Lemmas: interpolation\<close>

lemma interp_seg_convex:
  assumes "ps \<noteq> []" and "fst (hd ps) \<le> x" and "x \<le> fst (last ps)"
  shows "\<exists>p \<in> set ps. \<exists>q \<in> set ps. \<exists>t. 0 \<le> t \<and> t \<le> 1
           \<and> x = (1 - t) * fst p + t * fst q
           \<and> interp_seg x ps = (1 - t) * snd p + t * snd q"
  using assms
proof (induction x ps rule: interp_seg.induct)
  case (1 x)
  then show ?case by simp
next
  case (2 x x0 y0)
  then have "x = x0" by simp
  then show ?case by (auto intro!: exI [of _ 0])
next
  case (3 x x0 y0 x1 y1 ps)
  show ?case
  proof (cases "x < x1")
    case False
    then have "\<exists>p \<in> set ((x1, y1) # ps). \<exists>q \<in> set ((x1, y1) # ps). \<exists>t. 0 \<le> t \<and> t \<le> 1
           \<and> x = (1 - t) * fst p + t * fst q
           \<and> interp_seg x ((x1, y1) # ps) = (1 - t) * snd p + t * snd q"
      using 3 by simp
    then obtain p q t where "p \<in> set ((x1, y1) # ps)" "q \<in> set ((x1, y1) # ps)"
      "0 \<le> t" "t \<le> 1" "x = (1 - t) * fst p + t * fst q"
      "interp_seg x ((x1, y1) # ps) = (1 - t) * snd p + t * snd q"
      by blast
    with False show ?thesis
      by (intro bexI [of _ p] bexI [of _ q] exI [of _ t]) auto
  next
    case True
    show ?thesis
    proof (cases "x0 = x")
      case eq: True
      with True show ?thesis
        by (intro bexI [of _ "(x0, y0)"] exI [of _ 0]) auto
    next
      case ne: False
      with 3 have lt: "x0 < x" by simp
      define t where "t = (x - x0) / (x1 - x0)"
      have d: "0 < x1 - x0" using lt True by simp
      have t: "0 \<le> t" "t \<le> 1" using lt True d by (simp_all add: t_def)
      have tx: "t * (x1 - x0) = x - x0" using d by (simp add: t_def)
      have x: "x = (1 - t) * x0 + t * x1"
        using tx by (simp add: algebra_simps)
      have "(y1 - y0) / (x1 - x0) * (x - x0) = (y1 - y0) * t"
        by (simp add: t_def)
      then have "(y1 - y0) / (x1 - x0) * (x - x0) + y0 = (1 - t) * y0 + t * y1"
        by (simp add: algebra_simps)
      then have v: "interp_seg x ((x0, y0) # (x1, y1) # ps) = (1 - t) * y0 + t * y1"
        using True ne by simp
      show ?thesis
        using t x v
        by (intro bexI [of _ "(x0, y0)"] bexI [of _ "(x1, y1)"] exI [of _ t]) auto
    qed
  qed
qed

lemma convex_comb_between:
  fixes lo hi :: real
  assumes "0 \<le> t" "t \<le> 1" "lo \<le> a" "a \<le> hi" "lo \<le> b" "b \<le> hi"
  shows "lo \<le> (1 - t) * a + t * b \<and> (1 - t) * a + t * b \<le> hi"
proof -
  have 1: "(1 - t) * lo \<le> (1 - t) * a" "t * lo \<le> t * b"
    using assms by (simp_all add: mult_left_mono)
  have 2: "(1 - t) * a \<le> (1 - t) * hi" "t * b \<le> t * hi"
    using assms by (simp_all add: mult_left_mono)
  have "(1 - t) * lo + t * lo = lo" "(1 - t) * hi + t * hi = hi" by (simp_all add: algebra_simps)
  with 1 2 show ?thesis by linarith
qed

lemma interp_pt_between:
  assumes "ps \<noteq> []" and "\<forall>p \<in> set ps. lo \<le> snd p \<and> snd p \<le> hi"
  shows "interp_pt x ps 0 0 = 0 \<or> (lo \<le> interp_pt x ps 0 0 \<and> interp_pt x ps 0 0 \<le> hi)"
proof (cases "fst (last ps) < x \<or> x < fst (hd ps)")
  case True
  then show ?thesis by (auto simp: interp_pt_def)
next
  case False
  then have in_range: "fst (hd ps) \<le> x" "x \<le> fst (last ps)" by auto
  from interp_seg_convex [OF assms(1) in_range]
  obtain p q t where pq: "p \<in> set ps" "q \<in> set ps" and t: "0 \<le> t" "t \<le> 1"
    and v: "interp_seg x ps = (1 - t) * snd p + t * snd q"
    by blast
  have "lo \<le> (1 - t) * snd p + t * snd q \<and> (1 - t) * snd p + t * snd q \<le> hi"
    using assms(2) pq t by (intro convex_comb_between) auto
  with False v show ?thesis by (simp add: interp_pt_def)
qed

lemma interp_pt_inside:
  assumes "ps \<noteq> []" and "fst (hd ps) \<le> x" and "x \<le> fst (last ps)"
    and "\<forall>p \<in> set ps. lo \<le> snd p \<and> snd p \<le> hi"
  shows "lo \<le> interp_pt x ps l r \<and> interp_pt x ps l r \<le> hi"
proof -
  from interp_seg_convex [OF assms(1,2,3)]
  obtain p q t where pq: "p \<in> set ps" "q \<in> set ps" and t: "0 \<le> t" "t \<le> 1"
    and v: "interp_seg x ps = (1 - t) * snd p + t * snd q"
    by blast
  have "lo \<le> (1 - t) * snd p + t * snd q \<and> (1 - t) * snd p + t * snd q \<le> hi"
    using assms(4) pq t by (intro convex_comb_between) auto
  with assms(2,3) v show ?thesis by (simp add: interp_pt_def)
qed


subsection \<open>Lemmas: \<open>get_j\<close>\<close>

lemma mask_select_map: "mask_select (map P xs) xs = filter P xs"
  by (induction xs) (simp_all add: mask_select_def)

lemma set_mask_select: "set (mask_select msk xs) \<subseteq> set xs"
  by (auto simp: mask_select_def dest: set_zip_rightD)

lemma length_argsort: "length (argsort xs) = length xs"
  by (simp add: argsort_def)

lemma set_argsort: "set (argsort xs) = {0..<length xs}"
proof -
  have e: "map snd (zip xs [0..<length xs]) = [0..<length xs]"
    by simp
  have "set (argsort xs) = set (map snd (zip xs [0..<length xs]))"
    by (simp only: argsort_def set_map set_sort)
  also have "\<dots> = set [0..<length xs]" by (simp only: e)
  finally show ?thesis by simp
qed

lemma argsort_Nil_iff: "argsort xs = [] \<longleftrightarrow> xs = []"
  using length_argsort [of xs] by (metis length_0_conv)

lemma get_j_Inr_iff:
  assumes "length jf = length nup"
  shows "(\<exists>row. get_j omega jf nup = Inr row) \<longleftrightarrow> (\<exists>v \<in> set nup. 0 < v)"
proof -
  define pos where "pos = map (\<lambda>v. 0 < v) nup"
  have l1: "length (mask_select pos nup) = length (filter id pos)"
    by (simp add: pos_def length_mask_select)
  have l2: "length (mask_select pos jf) = length (filter id pos)"
    using assms by (simp add: pos_def length_mask_select)
  have e: "filter id pos \<noteq> [] \<longleftrightarrow> (\<exists>v \<in> set nup. 0 < v)"
    by (auto simp: pos_def filter_empty_conv)
  have "(\<exists>row. get_j omega jf nup = Inr row) \<longleftrightarrow> mask_select pos nup \<noteq> []"
    unfolding get_j_def Let_def pos_def [symmetric] interp_def
    using l1 l2 by (auto simp: argsort_Nil_iff)
  with l1 e show ?thesis by auto
qed

lemma get_j_row:
  assumes "get_j omega jf nup = Inr row" and "length jf = length nup"
    and "\<forall>v \<in> set jf. lo \<le> v \<and> v \<le> hi"
  shows "length row = length omega \<and> (\<forall>v \<in> set row. v = 0 \<or> (lo \<le> v \<and> v \<le> hi))"
proof -
  define pos where "pos = map (\<lambda>v. 0 < v) nup"
  define jf' where "jf' = mask_select pos jf"
  define nup' where "nup' = mask_select pos nup"
  define s where "s = argsort nup'"
  define ps where "ps = zip (map ((!) nup') s) (map ((!) jf') s)"
  have len: "length jf' = length nup'"
    using assms(2) by (simp add: jf'_def nup'_def pos_def length_mask_select)
  have r: "interp omega (map ((!) nup') s) (map ((!) jf') s) 0 0 = Inr row"
    using assms(1) unfolding get_j_def Let_def pos_def [symmetric] jf'_def [symmetric]
      nup'_def [symmetric] s_def [symmetric] by simp
  then have ne: "s \<noteq> []" and row: "row = map (\<lambda>v. interp_pt v ps 0 0) omega"
    by (auto simp: interp_def ps_def split: if_splits)
  have ps_ne: "ps \<noteq> []" using ne by (simp add: ps_def)
  have "\<forall>p \<in> set ps. lo \<le> snd p \<and> snd p \<le> hi"
  proof
    fix p assume "p \<in> set ps"
    then have "snd p \<in> set (map ((!) jf') s)" unfolding ps_def by (metis in_set_zipE prod.collapse)
    then obtain k where "k \<in> set s" "snd p = jf' ! k" by auto
    then have "k < length jf'" using len by (simp add: s_def set_argsort)
    then have "jf' ! k \<in> set jf" using set_mask_select [of pos jf] by (auto simp: jf'_def)
    with assms(3) \<open>snd p = jf' ! k\<close> show "lo \<le> snd p \<and> snd p \<le> hi" by simp
  qed
  from interp_pt_between [OF ps_ne this] show ?thesis by (auto simp: row)
qed

subsection \<open>Lemmas: the loops of the constructor\<close>

lemma fill_below_step:
  "fill_below c omega (a # as) i j1 =
     (case row1 c omega a of Inl e \<Rightarrow> Inl e
      | Inr row \<Rightarrow> fill_below c omega as (Suc i) (j1[i := row]))"
  unfolding fill_below.simps row1_def Let_def ..

lemma fill_above_step:
  "fill_above c omega (a # as) i (j1, j2) =
     (case row1 c omega a of Inl e \<Rightarrow> Inl e
      | Inr r1 \<Rightarrow>
          if flips c a
          then (case row2 c omega a of Inl e \<Rightarrow> Inl e
                | Inr r2 \<Rightarrow> fill_above c omega as (Suc i) (j1[i := r1], j2[i := r2]))
          else fill_above c omega as (Suc i) (j1[i := r1], j2))"
  unfolding fill_above.simps row1_def row2_def flips_def Let_def ..

declare fill_below.simps(2) [simp del] fill_above.simps(2) [simp del]

lemma fill_below_Inr:
  assumes "fill_below c omega as i j1 = Inr j1'" and "i + length as \<le> length j1"
  shows "length j1' = length j1
    \<and> (\<forall>k < length as. row1 c omega (as ! k) = Inr (j1' ! (i + k)))
    \<and> (\<forall>r < length j1. r < i \<or> i + length as \<le> r \<longrightarrow> j1' ! r = j1 ! r)"
  using assms
proof (induction as arbitrary: i j1)
  case Nil
  then show ?case by simp
next
  case (Cons a as)
  from Cons.prems(1) obtain row where row: "row1 c omega a = Inr row"
    and rest: "fill_below c omega as (Suc i) (j1[i := row]) = Inr j1'"
    by (auto simp: fill_below_step split: sum.splits)
  have "Suc i + length as \<le> length (j1[i := row])" using Cons.prems(2) by simp
  note ih = Cons.IH [OF rest this, unfolded length_list_update]
  have len: "length j1' = length j1" using ih by blast
  have rows: "\<forall>k < length as. row1 c omega (as ! k) = Inr (j1' ! (Suc i + k))"
    using ih by blast
  have same: "\<forall>r < length j1. r < Suc i \<or> Suc i + length as \<le> r \<longrightarrow> j1' ! r = j1[i := row] ! r"
    using ih by blast
  have i: "i < length j1" using Cons.prems(2) by simp
  have at_i: "j1' ! i = row" using same i by simp
  have "row1 c omega ((a # as) ! k) = Inr (j1' ! (i + k))" if "k < length (a # as)" for k
    using that row at_i rows by (cases k) simp_all
  moreover have "j1' ! r = j1 ! r" if "r < length j1" "r < i \<or> i + length (a # as) \<le> r" for r
    using that same by auto
  ultimately show ?case using len by blast
qed

lemma fill_below_succeeds:
  assumes "\<forall>a \<in> set as. \<exists>row. row1 c omega a = Inr row"
  shows "\<exists>j1'. fill_below c omega as i j1 = Inr j1'"
  using assms
proof (induction as arbitrary: i j1)
  case Nil
  then show ?case by simp
next
  case (Cons a as)
  then obtain row where "row1 c omega a = Inr row" by auto
  with Cons show ?case by (simp add: fill_below_step)
qed

lemma fill_above_Inr:
  assumes "fill_above c omega as i (j1, j2) = Inr (j1', j2')"
    and "i + length as \<le> length j1" and "length j2 = length j1"
  shows "length j1' = length j1 \<and> length j2' = length j1
    \<and> (\<forall>k < length as. row1 c omega (as ! k) = Inr (j1' ! (i + k))
          \<and> (if flips c (as ! k) then row2 c omega (as ! k) = Inr (j2' ! (i + k))
              else j2' ! (i + k) = j2 ! (i + k)))
    \<and> (\<forall>r < length j1. r < i \<or> i + length as \<le> r \<longrightarrow> j1' ! r = j1 ! r \<and> j2' ! r = j2 ! r)"
  using assms
proof (induction as arbitrary: i j1 j2)
  case Nil
  then show ?case by simp
next
  case (Cons a as)
  from Cons.prems(1) obtain r1 where r1: "row1 c omega a = Inr r1"
    by (auto simp: fill_above_step split: sum.splits)
  define j2n where "j2n = (if flips c a then j2[i := projr (row2 c omega a)] else j2)"
  have r2: "row2 c omega a = Inr (projr (row2 c omega a))" if "flips c a"
    using Cons.prems(1) r1 that by (auto simp: fill_above_step split: sum.splits)
  have rest: "fill_above c omega as (Suc i) (j1[i := r1], j2n) = Inr (j1', j2')"
    using Cons.prems(1) r1 by (auto simp: fill_above_step j2n_def split: sum.splits if_splits)
  have l: "Suc i + length as \<le> length (j1[i := r1])" "length j2n = length (j1[i := r1])"
    using Cons.prems(2,3) by (simp_all add: j2n_def)
  note ih = Cons.IH [OF rest l, unfolded length_list_update]
  have len: "length j1' = length j1" "length j2' = length j1"
    using ih by blast+
  have rows: "\<forall>k < length as. row1 c omega (as ! k) = Inr (j1' ! (Suc i + k))
          \<and> (if flips c (as ! k) then row2 c omega (as ! k) = Inr (j2' ! (Suc i + k))
              else j2' ! (Suc i + k) = j2n ! (Suc i + k))"
    using ih by blast
  have same: "\<forall>r < length j1. r < Suc i \<or> Suc i + length as \<le> r \<longrightarrow>
                 j1' ! r = j1[i := r1] ! r \<and> j2' ! r = j2n ! r"
    using ih by blast
  have i: "i < length j1" "i < length j2" using Cons.prems(2,3) by simp_all
  have at_i: "j1' ! i = r1" "j2' ! i = j2n ! i" using same i by simp_all
  have j2n_other: "j2n ! r = j2 ! r" if "r \<noteq> i" for r
    using that by (simp add: j2n_def)
  have j2n_i: "j2n ! i = (if flips c a then projr (row2 c omega a) else j2 ! i)"
    using i by (simp add: j2n_def)
  have "row1 c omega ((a # as) ! k) = Inr (j1' ! (i + k))
          \<and> (if flips c ((a # as) ! k) then row2 c omega ((a # as) ! k) = Inr (j2' ! (i + k))
              else j2' ! (i + k) = j2 ! (i + k))" if "k < length (a # as)" for k
  proof (cases k)
    case 0
    then show ?thesis using r1 r2 at_i j2n_i by auto
  next
    case (Suc k')
    then have "k' < length as" using that by simp
    with rows Suc show ?thesis by (auto simp: j2n_other)
  qed
  moreover have "j1' ! r = j1 ! r \<and> j2' ! r = j2 ! r"
    if "r < length j1" "r < i \<or> i + length (a # as) \<le> r" for r
    using that same by (auto simp: j2n_other)
  ultimately show ?case using len by blast
qed

lemma fill_above_succeeds:
  assumes "\<forall>a \<in> set as. (\<exists>row. row1 c omega a = Inr row) \<and> (flips c a \<longrightarrow> (\<exists>row. row2 c omega a = Inr row))"
  shows "\<exists>j1' j2'. fill_above c omega as i (j1, j2) = Inr (j1', j2')"
  using assms
proof (induction as arbitrary: i j1 j2)
  case Nil
  then show ?case by simp
next
  case (Cons a as)
  then obtain r1 where r1: "row1 c omega a = Inr r1" by auto
  show ?case
  proof (cases "flips c a")
    case True
    with Cons.prems obtain r2 where "row2 c omega a = Inr r2" by auto
    with True r1 Cons show ?thesis by (simp add: fill_above_step)
  next
    case False
    with r1 Cons show ?thesis by (simp add: fill_above_step)
  qed
qed

subsection \<open>Lemmas: the constructor\<close>

lemma ResInterp_init_unfold:
  "ResInterp_init c omega =
     (if omega = [] then Inl ValueError
      else if cand_axis c omega = [] then Inl ValueError
      else case fill_below c omega (below_axis c omega) 0
                  (replicate (length (axis c omega)) (replicate (length omega) 0)) of
             Inl e \<Rightarrow> Inl e
           | Inr j1 \<Rightarrow>
               if below_axis c omega = [] then Inl UnboundLocalError
               else (case fill_above c omega (above_axis c omega) (length (below_axis c omega))
                            (j1, replicate (length (axis c omega)) (replicate (length omega) 0)) of
                       Inl e \<Rightarrow> Inl e
                     | Inr (j1', j2') \<Rightarrow>
                         Inr \<lparr>RI_omega = omega, RI_af = axis c omega, RI_j1 = j1', RI_j2 = j2'\<rparr>))"
  unfolding ResInterp_init_def Let_def mask_select_map cand_axis_def [symmetric]
    axis_def [symmetric] below_axis_def [symmetric] above_axis_def [symmetric] ..

lemma length_filter_lt_gt:
  fixes g :: real
  shows "length (filter (\<lambda>a. a < g) xs) + length (filter (\<lambda>a. g < a) xs) \<le> length xs"
  by (induction xs) auto

lemma below_above_length:
  "length (below_axis c omega) + length (above_axis c omega) \<le> length (axis c omega)"
  by (simp add: below_axis_def above_axis_def length_filter_lt_gt)

lemma ResInterp_init_Inr:
  assumes "ResInterp_init c omega = Inr ri"
  defines "nb \<equiv> length (below_axis c omega)"
  defines "z \<equiv> replicate (length omega) (0 :: real)"
  shows "omega \<noteq> []" and "cand_axis c omega \<noteq> []" and "below_axis c omega \<noteq> []"
    and "RI_omega ri = omega" and "RI_af ri = axis c omega"
    and "length (RI_j1 ri) = length (axis c omega)" and "length (RI_j2 ri) = length (axis c omega)"
    and "\<And>r. r < nb \<Longrightarrow> row1 c omega (below_axis c omega ! r) = Inr (RI_j1 ri ! r) \<and> RI_j2 ri ! r = z"
    and "\<And>k. k < length (above_axis c omega) \<Longrightarrow>
           row1 c omega (above_axis c omega ! k) = Inr (RI_j1 ri ! (nb + k))
           \<and> (if flips c (above_axis c omega ! k)
               then row2 c omega (above_axis c omega ! k) = Inr (RI_j2 ri ! (nb + k))
               else RI_j2 ri ! (nb + k) = z)"
    and "\<And>r. nb + length (above_axis c omega) \<le> r \<Longrightarrow> r < length (axis c omega) \<Longrightarrow>
           RI_j1 ri ! r = z \<and> RI_j2 ri ! r = z"
proof -
  define zeros where "zeros = replicate (length (axis c omega)) z"
  note u = assms(1) [unfolded ResInterp_init_unfold, folded z_def, folded zeros_def]
  show ne: "omega \<noteq> []" using u by (auto split: if_splits)
  show cand: "cand_axis c omega \<noteq> []" using u by (auto split: if_splits)
  from u ne cand obtain j1 where fb: "fill_below c omega (below_axis c omega) 0 zeros = Inr j1"
    by (auto split: sum.splits)
  show bne: "below_axis c omega \<noteq> []" using u ne cand fb by (auto split: if_splits)
  from u ne cand fb bne obtain j1' j2' where
    fa: "fill_above c omega (above_axis c omega) nb (j1, zeros) = Inr (j1', j2')"
    and ri: "ri = \<lparr>RI_omega = omega, RI_af = axis c omega, RI_j1 = j1', RI_j2 = j2'\<rparr>"
    by (auto simp: nb_def split: sum.splits)
  show "RI_omega ri = omega" "RI_af ri = axis c omega" by (simp_all add: ri)
  have lz: "length zeros = length (axis c omega)" by (simp add: zeros_def)
  have le: "nb + length (above_axis c omega) \<le> length (axis c omega)"
    unfolding nb_def by (rule below_above_length)
  have b0: "0 + length (below_axis c omega) \<le> length zeros"
    using le by (simp add: lz nb_def)
  note B = fill_below_Inr [OF fb b0, folded nb_def]
  have lj1: "length j1 = length (axis c omega)" using B lz by simp
  have a0: "nb + length (above_axis c omega) \<le> length j1" "length zeros = length j1"
    using le lj1 lz by simp_all
  note A = fill_above_Inr [OF fa a0]
  show "length (RI_j1 ri) = length (axis c omega)" "length (RI_j2 ri) = length (axis c omega)"
    using A lj1 by (simp_all add: ri)
  have znth: "zeros ! r = z" if "r < length (axis c omega)" for r
    using that by (simp add: zeros_def)
  show "row1 c omega (below_axis c omega ! r) = Inr (RI_j1 ri ! r) \<and> RI_j2 ri ! r = z" if "r < nb" for r
  proof -
    have r: "r < length j1" using that le lj1 by simp
    have "row1 c omega (below_axis c omega ! r) = Inr (j1 ! r)" using B that by simp
    moreover have "j1' ! r = j1 ! r \<and> j2' ! r = zeros ! r" using A r that by blast
    ultimately show ?thesis using znth r lj1 by (simp add: ri)
  qed
  show "row1 c omega (above_axis c omega ! k) = Inr (RI_j1 ri ! (nb + k))
           \<and> (if flips c (above_axis c omega ! k)
               then row2 c omega (above_axis c omega ! k) = Inr (RI_j2 ri ! (nb + k))
               else RI_j2 ri ! (nb + k) = z)" if "k < length (above_axis c omega)" for k
  proof -
    have "nb + k < length (axis c omega)" using that le by simp
    then have "zeros ! (nb + k) = z" by (rule znth)
    moreover have "row1 c omega (above_axis c omega ! k) = Inr (j1' ! (nb + k))
          \<and> (if flips c (above_axis c omega ! k) then row2 c omega (above_axis c omega ! k) = Inr (j2' ! (nb + k))
              else j2' ! (nb + k) = zeros ! (nb + k))"
      using A that by blast
    ultimately show ?thesis by (simp add: ri)
  qed
  show "RI_j1 ri ! r = z \<and> RI_j2 ri ! r = z"
    if "nb + length (above_axis c omega) \<le> r" "r < length (axis c omega)" for r
  proof -
    have r: "r < length j1" "r < length zeros" using that lj1 lz by simp_all
    have "j1' ! r = j1 ! r \<and> j2' ! r = zeros ! r" using A r that by blast
    moreover have "j1 ! r = zeros ! r" using B r that by (simp add: nb_def)
    ultimately show ?thesis using znth that by (simp add: ri)
  qed
qed

lemma ResInterp_init_succeeds:
  assumes "omega \<noteq> []" and "cand_axis c omega \<noteq> []" and "below_axis c omega \<noteq> []"
    and "\<forall>a \<in> set (below_axis c omega). \<exists>row. row1 c omega a = Inr row"
    and "\<forall>a \<in> set (above_axis c omega). (\<exists>row. row1 c omega a = Inr row)
            \<and> (flips c a \<longrightarrow> (\<exists>row. row2 c omega a = Inr row))"
  shows "\<exists>ri. ResInterp_init c omega = Inr ri"
proof -
  define zeros where "zeros = replicate (length (axis c omega)) (replicate (length omega) (0 :: real))"
  obtain j1 where fb: "fill_below c omega (below_axis c omega) 0 zeros = Inr j1"
    using fill_below_succeeds [OF assms(4)] by blast
  obtain j1' j2' where
    "fill_above c omega (above_axis c omega) (length (below_axis c omega)) (j1, zeros) = Inr (j1', j2')"
    using fill_above_succeeds [OF assms(5)] by blast
  with fb assms(1,2,3) show ?thesis
    unfolding ResInterp_init_unfold zeros_def [symmetric] by simp
qed

subsection \<open>Memoization of \<open>drr\<close>\<close>

lemma cached_lookup:
  "cached_within k r p cache \<Longrightarrow> map_of cache k = Some r"
  by (auto simp: cached_within_def map_add_def map_of_eq_None_iff [symmetric]
           split: option.splits)

lemma drr_hit:
  assumes "cached_within (make_key cl) r p cache" and "binds cl"
  shows "drr sph_harm integ cl (cache, w)
           = Inr (r, ((make_key cl, r) # filter (\<lambda>e. fst e \<noteq> make_key cl) cache, w))"
  using cached_lookup [OF assms(1)] assms(2) by (simp add: drr_def)

lemma drr_returned:
  assumes "drr sph_harm integ cl (cache, w) = Inr (r, (cache', w'))"
  shows "binds cl" and "cached_within (make_key cl) r 0 cache'"
proof -
  show b: "binds cl" using assms by (auto simp: drr_def split: if_splits)
  have "\<exists>rest. cache' = (make_key cl, r) # rest"
    using assms b by (auto simp: drr_def numeral_eq_Suc split: option.splits sum.splits)
  then show "cached_within (make_key cl) r 0 cache'"
    by (auto simp: cached_within_def)
qed

lemma drr_step:
  assumes c: "cached_within k r p cache" and p: "p < 127"
    and call: "drr sph_harm integ cl (cache, w) = Inr (r', (cache', w'))"
  shows "cached_within k r (Suc p) cache'"
proof (cases "make_key cl = k")
  case True
  note b = drr_returned(1) [OF call]
  have "cached_within (make_key cl) r p cache" using c True by simp
  from drr_hit [OF this b, of sph_harm integ w] call
  have "cache' = [] @ (k, r) # filter (\<lambda>e. fst e \<noteq> k) cache" using True by simp
  moreover have "k \<notin> fst ` set []" "length ([] :: (drr_key \<times> (real \<times> real) list) list) \<le> Suc p" by simp_all
  ultimately show ?thesis unfolding cached_within_def by blast
next
  case False
  obtain pre post where cache: "cache = pre @ (k, r) # post"
    and nin: "k \<notin> fst ` set pre" and len: "length pre \<le> p"
    using c by (auto simp: cached_within_def)
  let ?k' = "make_key cl"
  show ?thesis
  proof (cases "map_of cache ?k'")
    case (Some r0)
    then have "cache' = (?k', r0) # filter (\<lambda>e. fst e \<noteq> ?k') cache"
      using call by (auto simp: drr_def split: if_splits)
    then have "cache' = ((?k', r0) # filter (\<lambda>e. fst e \<noteq> ?k') pre) @ (k, r) # filter (\<lambda>e. fst e \<noteq> ?k') post"
      using False by (simp add: cache)
    moreover have "k \<notin> fst ` set ((?k', r0) # filter (\<lambda>e. fst e \<noteq> ?k') pre)"
      using nin False by auto
    moreover have "length ((?k', r0) # filter (\<lambda>e. fst e \<noteq> ?k') pre) \<le> Suc p"
      using len by (simp add: le_trans [OF length_filter_le])
    ultimately show ?thesis unfolding cached_within_def by blast
  next
    case None
    then have "cache' = take 128 ((?k', r') # cache)"
      using call by (auto simp: drr_def split: if_splits sum.splits)
    then have "cache' = take 128 ((?k', r') # pre @ (k, r) # post)" by (simp only: cache)
    also have "\<dots> = ((?k', r') # pre) @ (k, r) # take (126 - length pre) post"
      using len p by (simp add: numeral_eq_Suc Suc_diff_le)
    finally have "cache' = ((?k', r') # pre) @ (k, r) # take (126 - length pre) post" .
    moreover have "k \<notin> fst ` set ((?k', r') # pre)" using nin False by auto
    moreover have "length ((?k', r') # pre) \<le> Suc p" using len by simp
    ultimately show ?thesis unfolding cached_within_def by blast
  qed
qed

lemma drr_calls_keep:
  assumes "cached_within k r p cache" and "p + length cs < 128"
    and "drr_calls sph_harm integ cs (cache, w) = Inr (cache2, w2)"
  shows "cached_within k r (p + length cs) cache2"
  using assms
proof (induction cs arbitrary: p cache w)
  case Nil
  then show ?case by simp
next
  case (Cons cl cs)
  from Cons.prems(3) obtain r' cache' w' where
    call: "drr sph_harm integ cl (cache, w) = Inr (r', (cache', w'))"
    and rest: "drr_calls sph_harm integ cs (cache', w') = Inr (cache2, w2)"
    by (auto split: sum.splits)
  have "p < 127" using Cons.prems(2) by simp
  from drr_step [OF Cons.prems(1) this call]
  have "cached_within k r (Suc p) cache'" .
  from Cons.IH [OF this _ rest] Cons.prems(2) show ?case by simp
qed

text \<open>
  Claim C8, as the code has it. A call of \<open>drr\<close> has returned the array \<open>r\<close>. After
  it, at most 127 further calls of \<open>drr\<close> are made, on any instances and with any
  arguments, each of which returns. Then the same call (the same instance, the same
  values, written in the same form) returns \<open>r\<close> again and leaves the state of the
  integrator as it was. This holds for any integrator \<open>integ'\<close> and any \<open>sph_harm'\<close>
  put in the place of the ones the earlier calls used: the repeated call runs
  neither, so no Monte Carlo integration is run again.
\<close>

theorem drr_memoized:
  assumes first: "drr sph_harm integ cl s = Inr (r, s1)"
    and between: "drr_calls sph_harm integ cs s1 = Inr (cache2, w2)"
    and few: "length cs < 128"
  shows "\<exists>cache3. drr sph_harm' integ' cl (cache2, w2) = Inr (r, (cache3, w2))"
proof -
  obtain cache w where s: "s = (cache, w)" by (cases s)
  obtain cache1 w1 where s1: "s1 = (cache1, w1)" by (cases s1)
  note f = first [unfolded s s1]
  note b = drr_returned [OF f]
  from drr_calls_keep [OF b(2) _ between [unfolded s1]] few
  have "cached_within (make_key cl) r (length cs) cache2" by simp
  then show ?thesis by (intro exI) (rule drr_hit [OF _ b(1)])
qed

lemma toy_u_drr:
  "u_drr sph_harm_deg3 toy_integ d j omega (3, 1, 3) neval w = Inr ((15 / 1792, 0), Suc (Suc w))"
  by (simp add: u_drr_def toy_integrate norm_deg3)

lemma toy_body:
  "drr_body sph_harm_deg3 toy_integ toy_drr 3 1 3 neval w = Inr (toy_rows, w + 4)"
  by (simp add: drr_body_def toy_drr_def DRR_init_omega toy_grid toy_u_drr toy_rows_def)

lemma toy_key_pos: "make_key (toy_call 4 [] x) = (0, [3, 1, 3, x], [])"
  by (simp add: make_key_def toy_call_def arg_values_def)

lemma toy_key_kw: "make_key (toy_call 3 [''neval''] x) = (0, [3, 1, 3], [(''neval'', x)])"
  by (simp add: make_key_def toy_call_def arg_values_def numeral_3_eq_3)

lemma toy_binds: "binds (toy_call 4 [] x)" "binds (toy_call 3 [''neval''] x)"
  by (simp_all add: binds_def toy_call_def drr_params_def)

lemma toy_miss:
  assumes "binds (toy_call npos kw x)" and "map_of cache (make_key (toy_call npos kw x)) = None"
  shows "drr sph_harm_deg3 toy_integ (toy_call npos kw x) (cache, w)
     = Inr (toy_rows, (take 128 ((make_key (toy_call npos kw x), toy_rows) # cache), w + 4))"
proof -
  have "drr_body sph_harm_deg3 toy_integ (c_self (toy_call npos kw x)) (c_l (toy_call npos kw x))
          (c_n (toy_call npos kw x)) (c_n_p (toy_call npos kw x)) nv w = Inr (toy_rows, w + 4)" for nv
    using toy_body [of nv w] by (simp add: toy_call_def)
  then show ?thesis using assms by (simp add: drr_def)
qed

lemma take_append_take: "take n (xs @ take n ys) = take n (xs @ ys)"
  by (induction xs arbitrary: n) (auto simp: take_Cons' )

lemma toy_misses:
  assumes "distinct ns" and "\<forall>x \<in> set ns. make_key (toy_call 4 [] x) \<notin> fst ` set cache"
    and "length cache \<le> 128"
  shows "drr_calls sph_harm_deg3 toy_integ (map (toy_call 4 []) ns) (cache, w)
     = Inr (take 128 (rev (map (\<lambda>x. (make_key (toy_call 4 [] x), toy_rows)) ns) @ cache),
            w + 4 * length ns)"
  using assms
proof (induction ns arbitrary: cache w)
  case Nil
  then show ?case by simp
next
  case (Cons a ns)
  let ?e = "\<lambda>x. (make_key (toy_call 4 [] x), toy_rows)"
  have "map_of cache (make_key (toy_call 4 [] a)) = None"
    using Cons.prems(2) by (simp add: map_of_eq_None_iff)
  from toy_miss [OF toy_binds(1) this]
  have call: "drr sph_harm_deg3 toy_integ (toy_call 4 [] a) (cache, w)
     = Inr (toy_rows, (take 128 (?e a # cache), w + 4))" .
  have fresh: "\<forall>x \<in> set ns. make_key (toy_call 4 [] x) \<notin> fst ` set (take 128 (?e a # cache))"
  proof
    fix x assume x: "x \<in> set ns"
    then have "x \<noteq> a" using Cons.prems(1) by auto
    then have "make_key (toy_call 4 [] x) \<noteq> make_key (toy_call 4 [] a)" by (simp add: toy_key_pos)
    moreover have "make_key (toy_call 4 [] x) \<notin> fst ` set cache" using Cons.prems(2) x by simp
    ultimately have "make_key (toy_call 4 [] x) \<notin> fst ` set (?e a # cache)" by auto
    then show "make_key (toy_call 4 [] x) \<notin> fst ` set (take 128 (?e a # cache))"
      by (meson image_mono in_mono set_take_subset)
  qed
  have d: "distinct ns" using Cons.prems(1) by simp
  have eq: "take 128 (rev (map ?e ns) @ take 128 (?e a # cache))
          = take 128 (rev (map ?e (a # ns)) @ cache)"
    unfolding take_append_take by simp
  have l: "length (take 128 (?e a # cache)) \<le> 128" by simp
  have "drr_calls sph_harm_deg3 toy_integ (map (toy_call 4 []) (a # ns)) (cache, w)
      = drr_calls sph_harm_deg3 toy_integ (map (toy_call 4 []) ns) (take 128 (?e a # cache), w + 4)"
    by (simp add: call)
  also have "\<dots> = Inr (take 128 (rev (map ?e ns) @ take 128 (?e a # cache)), w + 4 + 4 * length ns)"
    by (rule Cons.IH [OF d fresh l])
  also have "\<dots> = Inr (take 128 (rev (map ?e (a # ns)) @ cache), w + 4 * length (a # ns))"
    unfolding eq by simp
  finally show ?case .
qed

lemma toy_first:
  "drr sph_harm_deg3 toy_integ (toy_call 4 [] 1000) ([], 0)
     = Inr (toy_rows, ([((0, [3, 1, 3, 1000], []), toy_rows)], 4))"
  using toy_miss [OF toy_binds(1), of "[]" 1000 0] by (simp add: toy_key_pos)

lemma toy_second:
  "drr_calls sph_harm_deg3 toy_integ [toy_call 4 [] 2000] ([((0, [3, 1, 3, 1000], []), toy_rows)], 4)
     = Inr ([((0, [3, 1, 3, 2000], []), toy_rows), ((0, [3, 1, 3, 1000], []), toy_rows)], 8)"
  using toy_miss [OF toy_binds(1), of "[((0, [3, 1, 3, 1000], []), toy_rows)]" 2000 4]
  by (simp add: toy_key_pos)

text \<open>
  The theorem at \<open>toy_drr\<close>, whose grid has two points: the call
  \<open>drr(3, 1, 3, 1000.0)\<close> runs the integrator four times (twice per grid point) and
  stores the array; the call \<open>drr(3, 1, 3, 2000.0)\<close> runs it four more times; the
  first call made again returns the stored array with the call counter still at 8.
\<close>

theorem drr_memoized_witness:
  "drr sph_harm_deg3 toy_integ (toy_call 4 [] 1000) ([], 0)
     = Inr (toy_rows, ([((0, [3, 1, 3, 1000], []), toy_rows)], 4))
   \<and> drr_calls sph_harm_deg3 toy_integ [toy_call 4 [] 2000]
        ([((0, [3, 1, 3, 1000], []), toy_rows)], 4)
     = Inr ([((0, [3, 1, 3, 2000], []), toy_rows), ((0, [3, 1, 3, 1000], []), toy_rows)], 8)
   \<and> (\<exists>cache3.
        drr sph_harm_deg3 toy_integ (toy_call 4 [] 1000)
          ([((0, [3, 1, 3, 2000], []), toy_rows), ((0, [3, 1, 3, 1000], []), toy_rows)], 8)
        = Inr (toy_rows, (cache3, 8)))"
  using drr_memoized [OF toy_first toy_second, of sph_harm_deg3 toy_integ] toy_first toy_second
  by simp

lemma toy_keyword_call:
  "drr sph_harm_deg3 toy_integ (toy_call 3 [''neval''] 1000)
       ([((0, [3, 1, 3, 1000], []), toy_rows)], 4)
     = Inr (toy_rows,
            ([((0, [3, 1, 3], [(''neval'', 1000)]), toy_rows), ((0, [3, 1, 3, 1000], []), toy_rows)], 8))"
  using toy_miss [OF toy_binds(2), of "[((0, [3, 1, 3, 1000], []), toy_rows)]" 1000 4]
  by (simp add: toy_key_pos toy_key_kw)

lemma toy_evicted:
  "\<exists>cache2 cache3.
     drr_calls sph_harm_deg3 toy_integ (map (toy_call 4 []) (map (\<lambda>i. 1000 + real i) [1..<129]))
         ([((0, [3, 1, 3, 1000], []), toy_rows)], 4)
       = Inr (cache2, 516)
     \<and> drr sph_harm_deg3 toy_integ (toy_call 4 [] 1000) (cache2, 516)
       = Inr (toy_rows, (cache3, 520))"
proof -
  define ns where "ns = map (\<lambda>i. 1000 + real i) [1..<129]"
  define e where "e = (\<lambda>x. (make_key (toy_call 4 [] x), toy_rows))"
  define c0 where "c0 = [((0 :: nat, [3, 1, 3, 1000 :: real], [] :: (string \<times> real) list), toy_rows)]"
  have d: "distinct ns" by (simp add: ns_def distinct_map inj_on_def)
  have l: "length ns = 128" by (simp add: ns_def)
  have ne: "\<forall>x \<in> set ns. x \<noteq> 1000" by (auto simp: ns_def)
  then have fresh: "\<forall>x \<in> set ns. make_key (toy_call 4 [] x) \<notin> fst ` set c0"
    by (simp add: toy_key_pos c0_def)
  have "length c0 \<le> 128" by (simp add: c0_def)
  from toy_misses [OF d fresh this, of 4]
  have run: "drr_calls sph_harm_deg3 toy_integ (map (toy_call 4 []) ns) (c0, 4)
      = Inr (rev (map e ns), 516)"
    by (simp add: l e_def)
  have "make_key (toy_call 4 [] 1000) \<notin> fst ` set (rev (map e ns))"
    using ne by (auto simp: e_def toy_key_pos)
  then have "map_of (rev (map e ns)) (make_key (toy_call 4 [] 1000)) = None"
    by (simp add: map_of_eq_None_iff)
  from toy_miss [OF toy_binds(1) this, of 516]
  have "drr sph_harm_deg3 toy_integ (toy_call 4 [] 1000) (rev (map e ns), 516)
      = Inr (toy_rows, (take 128 ((make_key (toy_call 4 [] 1000), toy_rows) # rev (map e ns)), 520))"
    by simp
  with run show ?thesis unfolding ns_def c0_def by blast
qed

text \<open>
  Claim C8 as stated promises the stored array to every second call with identical
  arguments. After \<open>drr(3, 1, 3, 1000.0)\<close> on \<open>toy_drr\<close>, the 128 calls
  \<open>drr(3, 1, 3, 1001.0)\<close>, ..., \<open>drr(3, 1, 3, 1128.0)\<close> fill the cache and push the
  first entry out, and \<open>drr(3, 1, 3, 1000.0)\<close> made again runs the integrator
  again: the call counter goes from 516 to 520. The same values passed as
  \<open>drr(3, 1, 3, neval=1000.0)\<close> right after the first call have another key and run
  the integrator again as well: the call counter goes from 4 to 8.
\<close>

theorem drr_memoized_counterexample:
  "drr sph_harm_deg3 toy_integ (toy_call 4 [] 1000) ([], 0)
     = Inr (toy_rows, ([((0, [3, 1, 3, 1000], []), toy_rows)], 4))
   \<and> (\<exists>cache2 cache3.
        drr_calls sph_harm_deg3 toy_integ (map (toy_call 4 []) (map (\<lambda>i. 1000 + real i) [1..<129]))
            ([((0, [3, 1, 3, 1000], []), toy_rows)], 4)
          = Inr (cache2, 516)
        \<and> drr sph_harm_deg3 toy_integ (toy_call 4 [] 1000) (cache2, 516)
          = Inr (toy_rows, (cache3, 520)))
   \<and> drr sph_harm_deg3 toy_integ (toy_call 3 [''neval''] 1000)
         ([((0, [3, 1, 3, 1000], []), toy_rows)], 4)
       = Inr (toy_rows,
              ([((0, [3, 1, 3], [(''neval'', 1000)]), toy_rows), ((0, [3, 1, 3, 1000], []), toy_rows)], 8))"
  using toy_first toy_evicted toy_keyword_call by blast

subsection \<open>Construction fails without a starting axis\<close>

lemma cand_axis_Nil:
  assumes "\<forall>a \<in> set (logspace (log 10 (rg c)) (log 10 (rh c)) 1000).
             \<not> (a < a_gr1 c \<and> Max (set omega) < nu_p1 c a)"
  shows "cand_axis c omega = []"
  using assms by (simp add: cand_axis_def filter_empty_conv)

text \<open>
  Claim C9. When none of the 1000 log-spaced axis samples between \<open>r_g\<close> and \<open>r_h\<close>
  is both below \<open>a_gr1\<close> and such that \<open>max(omega) < nu_p1(a)\<close>, the constructor of
  \<open>ResInterp\<close> raises (the \<open>ValueError\<close> of \<open>max\<close> on an empty array) and builds no
  table.
\<close>

theorem ResInterp_init_no_axis:
  assumes "\<forall>a \<in> set (logspace (log 10 (rg c)) (log 10 (rh c)) 1000).
             \<not> (a < a_gr1 c \<and> Max (set omega) < nu_p1 c a)"
  shows "ResInterp_init c omega = Inl ValueError"
  using cand_axis_Nil [OF assms] by (simp add: ResInterp_init_unfold)

text \<open>
  The theorem at \<open>toy_cusp\<close> with the single target frequency 2, which no value of
  its \<open>nu_p1\<close> exceeds.
\<close>

theorem ResInterp_init_no_axis_witness:
  "ResInterp_init toy_cusp [2] = Inl ValueError"
  using ResInterp_init_no_axis [of toy_cusp "[2]"] by (simp add: toy_cusp_def)

subsection \<open>Lemmas: \<open>logspace\<close> and the angular-momentum samples\<close>

lemma logspace_mono:
  assumes "s \<le> t" and "i \<le> k"
  shows "10 powr (s + real i * ((t - s) / real (n - 1))) \<le> 10 powr (s + real k * ((t - s) / real (n - 1)))"
proof -
  have "0 \<le> (t - s) / real (n - 1)" using assms by simp
  then have "real i * ((t - s) / real (n - 1)) \<le> real k * ((t - s) / real (n - 1))"
    using assms by (intro mult_right_mono) auto
  then show ?thesis by simp
qed

lemma logspace_strict_mono:
  assumes "s < t" and "i < k" and "2 \<le> n"
  shows "10 powr (s + real i * ((t - s) / real (n - 1))) < 10 powr (s + real k * ((t - s) / real (n - 1)))"
proof -
  have "0 < real (n - 1)" using assms by simp
  then have "0 < (t - s) / real (n - 1)" using assms by (intro divide_pos_pos) auto
  then have "real i * ((t - s) / real (n - 1)) < real k * ((t - s) / real (n - 1))"
    using assms by (intro mult_strict_right_mono) auto
  then show ?thesis by simp
qed

lemma sorted_logspace:
  assumes "s \<le> t" shows "sorted (logspace s t n)"
  unfolding sorted_iff_nth_mono length_logspace
proof (intro allI impI)
  fix i k assume "i \<le> k" "k < n"
  then show "logspace s t n ! i \<le> logspace s t n ! k"
    using logspace_mono [OF assms, of i k n] by (simp only: logspace_nth)
qed

lemma strict_sorted_logspace:
  assumes "s < t" and "2 \<le> n" shows "sorted_wrt (<) (logspace s t n)"
  unfolding sorted_wrt_iff_nth_less length_logspace
proof (intro allI impI)
  fix i k assume "i < k" "k < n"
  then show "logspace s t n ! i < logspace s t n ! k"
    using logspace_strict_mono [OF assms(1) _ assms(2), of i k] by (simp only: logspace_nth)
qed

lemma logspace_pos: "x \<in> set (logspace s t n) \<Longrightarrow> 0 < x"
  by (auto simp: logspace_def)

lemma logspace_last:
  assumes "2 \<le> n" shows "logspace s t n ! (n - 1) = 10 powr t"
proof -
  have "0 < real (n - 1)" using assms by simp
  then have "real (n - 1) * ((t - s) / real (n - 1)) = t - s" by simp
  then have "s + real (n - 1) * ((t - s) / real (n - 1)) = t" by simp
  then show ?thesis using assms by (simp add: logspace_nth del: of_nat_diff)
qed

lemma logspace_first: "0 < n \<Longrightarrow> logspace s t n ! 0 = 10 powr s"
  by (simp add: logspace_nth)

lemma logspace_bounds:
  assumes "s \<le> t" and "2 \<le> n" and "x \<in> set (logspace s t n)"
  shows "10 powr s \<le> x \<and> x \<le> 10 powr t"
proof -
  obtain i where i: "i < n" and x: "x = logspace s t n ! i"
    using assms(3) by (metis in_set_conv_nth length_logspace)
  have srt: "sorted (logspace s t n)" using assms(1) by (rule sorted_logspace)
  have "logspace s t n ! 0 \<le> logspace s t n ! i"
    using srt i by (simp add: sorted_iff_nth_mono length_logspace)
  moreover have "logspace s t n ! i \<le> logspace s t n ! (n - 1)"
    using srt i by (intro sorted_nth_mono) (auto simp: length_logspace)
  moreover have "logspace s t n ! 0 = 10 powr s" using i by (intro logspace_first) simp
  moreover have "logspace s t n ! (n - 1) = 10 powr t" using assms(2) by (rule logspace_last)
  ultimately show ?thesis using x by (simp del: One_nat_def)
qed

lemma jf_samples_props:
  assumes "0 < jlc c a" and "jlc c a < 1"
  shows "length (jf_samples c a) = 1000"
    and "sorted_wrt (<) (jf_samples c a)"
    and "hd (jf_samples c a) = jlc c a"
    and "\<forall>v \<in> set (jf_samples c a). jlc c a \<le> v \<and> v < 1"
proof -
  define s where "s = log 10 (jlc c a)"
  have s: "s < 0" using assms by (simp add: s_def)
  have full: "sorted_wrt (<) (logspace s 0 1001)"
    using s by (intro strict_sorted_logspace) auto
  have len: "length (logspace s 0 1001) = 1001" by (rule length_logspace)
  have jf: "jf_samples c a = butlast (logspace s 0 1001)"
    by (simp add: jf_samples_def s_def)
  show "length (jf_samples c a) = 1000" by (simp add: jf len)
  have bl: "butlast (logspace s 0 1001) = take 1000 (logspace s 0 1001)"
    by (simp add: butlast_conv_take len)
  show "sorted_wrt (<) (jf_samples c a)"
    unfolding jf bl using full by (rule sorted_wrt_take)
  have nth: "jf_samples c a ! i = logspace s 0 1001 ! i" if "i < 1000" for i
    using that by (simp add: jf bl)
  have "hd (jf_samples c a) = jf_samples c a ! 0"
    by (rule hd_conv_nth) (use \<open>length (jf_samples c a) = 1000\<close> in auto)
  also have "\<dots> = 10 powr s" by (simp add: nth logspace_first)
  also have "\<dots> = jlc c a" using assms by (simp add: s_def)
  finally show "hd (jf_samples c a) = jlc c a" .
  show "\<forall>v \<in> set (jf_samples c a). jlc c a \<le> v \<and> v < 1"
  proof
    fix v assume "v \<in> set (jf_samples c a)"
    then obtain i where i: "i < 1000" and v: "v = logspace s 0 1001 ! i"
      using nth \<open>length (jf_samples c a) = 1000\<close> by (metis in_set_conv_nth)
    have "logspace s 0 1001 ! 0 \<le> logspace s 0 1001 ! i"
      using full i len by (cases i) (auto simp: sorted_wrt_iff_nth_less less_imp_le)
    moreover have "logspace s 0 1001 ! i < logspace s 0 1001 ! 1000"
      using full i len by (simp add: sorted_wrt_iff_nth_less)
    moreover have "logspace s 0 1001 ! 1000 = 10 powr 0"
      using logspace_last [of 1001 s 0] by simp
    moreover have "logspace s 0 1001 ! 0 = jlc c a"
      using assms by (simp add: logspace_first s_def)
    ultimately show "jlc c a \<le> v \<and> v < 1" using v by simp
  qed
qed

subsection \<open>Lemmas: sorting and the sign of a table entry\<close>

lemma nth_argsort:
  "map ((!) xs) (argsort xs) = map fst (sort_key fst (zip xs [0..<length xs]))"
proof -
  have "xs ! snd p = fst p" if "p \<in> set (sort_key fst (zip xs [0..<length xs]))" for p
  proof -
    from that have "p \<in> set (zip xs [0..<length xs])" by simp
    then obtain i where "i < length xs" "p = (xs ! i, i)"
      by (auto simp: set_zip)
    then show ?thesis by simp
  qed
  then show ?thesis by (simp add: argsort_def)
qed

lemma sorted_nth_argsort: "sorted (map ((!) xs) (argsort xs))"
  unfolding nth_argsort by (rule sorted_sort_key)

lemma set_nth_argsort: "set (map ((!) xs) (argsort xs)) = set xs"
proof -
  have e: "map fst (zip xs [0..<length xs]) = xs" by simp
  have "set (map ((!) xs) (argsort xs)) = set (map fst (zip xs [0..<length xs]))"
    unfolding nth_argsort by (simp only: set_map set_sort)
  then show ?thesis by (simp only: e)
qed

lemma argsort_sorted: "sorted xs \<Longrightarrow> argsort xs = [0..<length xs]"
proof -
  assume "sorted xs"
  then have "sorted (map fst (zip xs [0..<length xs]))" by simp
  then have "sort_key fst (zip xs [0..<length xs]) = zip xs [0..<length xs]"
    by (rule sort_key_id_if_sorted)
  then show ?thesis by (simp add: argsort_def)
qed

lemma mask_select_all: "\<forall>x \<in> set xs. P x \<Longrightarrow> mask_select (map P xs) xs = xs"
  by (simp add: mask_select_map)

lemma hd_zip: "xs \<noteq> [] \<Longrightarrow> ys \<noteq> [] \<Longrightarrow> hd (zip xs ys) = (hd xs, hd ys)"
  by (cases xs; cases ys) simp_all

lemma last_zip': "xs \<noteq> [] \<Longrightarrow> length xs = length ys \<Longrightarrow> last (zip xs ys) = (last xs, last ys)"
  by (metis last_zip length_0_conv)

lemma sorted_hd_le: "sorted xs \<Longrightarrow> x \<in> set xs \<Longrightarrow> hd xs \<le> x"
  by (cases xs) auto

lemma sorted_le_last: "sorted xs \<Longrightarrow> x \<in> set xs \<Longrightarrow> x \<le> last xs"
  by (metis in_set_conv_nth last_conv_nth length_pos_if_in_set less_numeral_extra(3) list.size(3) sorted_nth_mono Suc_pred less_Suc_eq_le diff_Suc_1 order_refl)

lemma get_j_pos:
  assumes r: "get_j omega jf nup = Inr row" and len: "length jf = length nup"
    and b: "\<forall>v \<in> set jf. lo \<le> v \<and> v \<le> hi"
    and k: "k < length omega"
    and u: "u \<in> set nup" "0 < u" "u \<le> omega ! k"
    and v: "v \<in> set nup" "omega ! k \<le> v"
  shows "lo \<le> row ! k \<and> row ! k \<le> hi"
proof -
  define pos where "pos = map (\<lambda>v. 0 < v) nup"
  define jf' where "jf' = mask_select pos jf"
  define nup' where "nup' = mask_select pos nup"
  define s where "s = argsort nup'"
  define xp where "xp = map ((!) nup') s"
  define fp where "fp = map ((!) jf') s"
  have len': "length jf' = length nup'"
    using len by (simp add: jf'_def nup'_def pos_def length_mask_select)
  have r': "interp omega xp fp 0 0 = Inr row"
    using r unfolding get_j_def Let_def pos_def [symmetric] jf'_def [symmetric]
      nup'_def [symmetric] s_def [symmetric] xp_def [symmetric] fp_def [symmetric] by simp
  then have ne: "xp \<noteq> []" and lfp: "length fp = length xp"
    and row: "row = map (\<lambda>v. interp_pt v (zip xp fp) 0 0) omega"
    by (auto simp: interp_def split: if_splits)
  have sx: "sorted xp" unfolding xp_def s_def by (rule sorted_nth_argsort)
  have setx: "set xp = {x \<in> set nup. 0 < x}"
    unfolding xp_def s_def set_nth_argsort by (auto simp: nup'_def pos_def mask_select_map)
  have "u \<in> set xp" "v \<in> set xp" using u v setx by auto
  then have "hd xp \<le> u" "v \<le> last xp"
    using sx by (auto intro: sorted_hd_le sorted_le_last)
  then have range: "hd xp \<le> omega ! k" "omega ! k \<le> last xp" using u v by auto
  have fpne: "fp \<noteq> []" using ne lfp by auto
  have z: "zip xp fp \<noteq> []" "fst (hd (zip xp fp)) = hd xp" "fst (last (zip xp fp)) = last xp"
    using ne fpne lfp by (simp_all add: hd_zip last_zip')
  have "\<forall>p \<in> set (zip xp fp). lo \<le> snd p \<and> snd p \<le> hi"
  proof
    fix p assume "p \<in> set (zip xp fp)"
    then have "snd p \<in> set fp" by (metis in_set_zipE prod.collapse)
    then obtain i where "i \<in> set s" "snd p = jf' ! i" by (auto simp: fp_def)
    then have "i < length jf'" using len' by (simp add: s_def set_argsort)
    then have "jf' ! i \<in> set jf" using set_mask_select [of pos jf] by (auto simp: jf'_def)
    with b \<open>snd p = jf' ! i\<close> show "lo \<le> snd p \<and> snd p \<le> hi" by simp
  qed
  from interp_pt_inside [OF z(1) _ _ this, of "omega ! k" 0 0] range z
  show ?thesis using k by (simp add: row)
qed

lemma interp_pt_first:
  assumes "2 \<le> length ps" and "fst (ps ! 0) < fst (ps ! 1)" and "fst (ps ! 0) \<le> fst (last ps)"
  shows "interp_pt (fst (ps ! 0)) ps l r = snd (ps ! 0)"
proof -
  obtain x0 y0 x1 y1 rest where ps: "ps = (x0, y0) # (x1, y1) # rest"
    using assms(1) by (cases ps; cases "tl ps") auto
  show ?thesis using assms(2,3) by (simp add: ps interp_pt_def)
qed

subsection \<open>The constructor at \<open>toy_cusp\<close>\<close>

lemma toy_cusp_simps:
  "rg toy_cusp = 1" "rh toy_cusp = 10" "a_gr1 toy_cusp = 100" "jlc toy_cusp a = 1 / 10"
  "nu_p toy_cusp a j = j" "nu_p1 toy_cusp a = (if a \<le> 1 then 1 else 0)"
  by (simp_all add: toy_cusp_def)

lemma sorted_wrt_less_sorted: "sorted_wrt (<) (xs :: real list) \<Longrightarrow> sorted xs"
  by (rule sorted_wrt_mono_rel [where P = "(<)"]) auto

lemma get_j_identity:
  assumes len: "2 \<le> length jf" and srt: "sorted_wrt (<) jf" and pos: "0 < hd jf"
  shows "get_j [hd jf] jf jf = Inr [hd jf]"
proof -
  have ne: "jf \<noteq> []" using len by auto
  have s: "sorted jf" using srt by (rule sorted_wrt_less_sorted)
  have allpos: "\<forall>x \<in> set jf. 0 < x"
    using sorted_hd_le [OF s] pos by fastforce
  have sel: "mask_select (map (\<lambda>v. 0 < v) jf) jf = jf"
    using allpos by (rule mask_select_all)
  have nth: "map ((!) jf) (argsort jf) = jf"
    by (simp add: argsort_sorted [OF s] map_nth)
  have h: "hd jf = jf ! 0" using ne by (simp add: hd_conv_nth)
  have l01: "0 < length jf" "1 < length jf" using len by auto
  have z0: "zip jf jf ! 0 = (jf ! 0, jf ! 0)" "zip jf jf ! 1 = (jf ! 1, jf ! 1)"
    using l01 by simp_all
  have lt: "jf ! 0 < jf ! 1" using srt len by (simp add: sorted_wrt_iff_nth_less)
  have la: "fst (last (zip jf jf)) = last jf" using ne by (simp add: last_zip')
  have "hd jf \<le> last jf" using s ne by (intro sorted_hd_le) auto
  then have "interp_pt (fst (zip jf jf ! 0)) (zip jf jf) 0 0 = snd (zip jf jf ! 0)"
    using len lt la by (intro interp_pt_first) (simp_all add: z0 h)
  then have "interp_pt (hd jf) (zip jf jf) 0 0 = hd jf" by (simp add: z0 h)
  then show ?thesis
    using ne by (simp add: get_j_def Let_def sel nth interp_def argsort_Nil_iff)
qed

lemma toy_row1: "row1 toy_cusp [1 / 10] a = Inr [1 / 10]"
proof -
  have j: "0 < jlc toy_cusp a" "jlc toy_cusp a < 1" by (simp_all add: toy_cusp_simps)
  note p = jf_samples_props [OF j]
  have "get_j [hd (jf_samples toy_cusp a)] (jf_samples toy_cusp a) (jf_samples toy_cusp a)
          = Inr [hd (jf_samples toy_cusp a)]"
    using p j by (intro get_j_identity) simp_all
  moreover have "map (nu_p toy_cusp a) (jf_samples toy_cusp a) = jf_samples toy_cusp a"
    by (simp add: toy_cusp_def)
  ultimately show ?thesis by (simp add: row1_def toy_cusp_simps p(3))
qed

lemma logspace_0_1: "logspace 0 1 1000 ! 0 = 1" "\<forall>x \<in> set (logspace 0 1 1000). 1 \<le> x \<and> x \<le> 10"
  using logspace_bounds [of 0 1 1000] by (simp_all add: logspace_first)

lemma filter_le_hd:
  assumes "sorted_wrt (<) (xs :: real list)" and "xs \<noteq> []"
  shows "filter (\<lambda>a. a \<le> hd xs) xs = [hd xs]"
proof -
  obtain x rest where xs: "xs = x # rest" using assms(2) by (cases xs) auto
  then have "\<forall>y \<in> set rest. x < y" using assms(1) by simp
  then have "filter (\<lambda>a. a \<le> x) rest = []" by (auto simp: filter_empty_conv)
  then show ?thesis by (simp add: xs)
qed

lemma toy_cand: "cand_axis toy_cusp [1 / 10] = [1]"
proof -
  let ?xs = "logspace 0 1 1000"
  have ne: "?xs \<noteq> []" using length_logspace [of 0 1 1000] by auto
  have hd: "hd ?xs = 1" using ne logspace_0_1(1) by (simp add: hd_conv_nth)
  have "filter (\<lambda>a. a < 100 \<and> Max (set [1 / 10 :: real]) < (if a \<le> 1 then 1 else 0)) ?xs
          = filter (\<lambda>a. a \<le> hd ?xs) ?xs"
    using logspace_0_1(2) by (intro filter_cong) (auto simp: hd)
  also have "\<dots> = [hd ?xs]"
    by (intro filter_le_hd strict_sorted_logspace ne) simp_all
  finally show ?thesis by (simp add: cand_axis_def toy_cusp_simps hd)
qed

lemma toy_axis: "axis toy_cusp [1 / 10] = logspace 0 1 1000"
  by (simp add: axis_def toy_cand toy_cusp_simps)

lemma toy_below: "below_axis toy_cusp [1 / 10] = logspace 0 1 1000"
proof -
  have "\<forall>x \<in> set (logspace 0 1 1000). x < 100" using logspace_0_1(2) by fastforce
  then show ?thesis by (simp add: below_axis_def toy_axis toy_cusp_simps)
qed

lemma toy_above: "above_axis toy_cusp [1 / 10] = []"
  using logspace_0_1(2) by (auto simp: above_axis_def toy_axis toy_cusp_simps filter_empty_conv)

lemma toy_init: "ResInterp_init toy_cusp [1 / 10] = Inr toy_ri"
proof -
  let ?af = "logspace 0 1 1000"
  have ne: "?af \<noteq> []" using length_logspace [of 0 1 1000] by auto
  obtain ri where ri: "ResInterp_init toy_cusp [1 / 10] = Inr ri"
    using ResInterp_init_succeeds [of "[1 / 10]" toy_cusp] ne
    by (auto simp: toy_cand toy_below toy_above toy_row1)
  note R = ResInterp_init_Inr [OF ri, unfolded toy_axis toy_below toy_above]
  have l: "length (RI_j1 ri) = length ?af" "length (RI_j2 ri) = length ?af"
    using R by simp_all
  have rows: "RI_j1 ri ! r = [1 / 10] \<and> RI_j2 ri ! r = [0]" if "r < length ?af" for r
    using R(8) [OF that] by (simp add: toy_row1)
  have "RI_j1 ri = map (\<lambda>a. [1 / 10]) ?af"
    using l rows by (intro nth_equalityI) simp_all
  moreover have "RI_j2 ri = map (\<lambda>a. [0]) ?af"
    using l rows by (intro nth_equalityI) simp_all
  moreover have "RI_omega ri = [1 / 10]" "RI_af ri = ?af" using R by simp_all
  ultimately have "ri = toy_ri" by (simp add: toy_ri_def)
  with ri show ?thesis by simp
qed

subsection \<open>The lookup error of \<open>get_jf1\<close> and \<open>get_jf2\<close>\<close>

lemma get_jf2_raises:
  assumes "length (RI_j2 ri) = length (RI_af ri)"
  shows "isl (get_jf2 ri w af) \<longleftrightarrow> (\<forall>x \<in> set (RI_omega ri). 1 / 10 ^ 8 < \<bar>x - w\<bar>)"
proof (cases "RI_omega ri = []")
  case True
  then show ?thesis by (simp add: get_jf2_def)
next
  case False
  define i where "i = argmin (map (\<lambda>x. \<bar>x - w\<bar>) (RI_omega ri))"
  define j where "j = map (\<lambda>row. row ! i) (RI_j2 ri)"
  have len: "length j = length (RI_af ri)" using assms by (simp add: j_def)
  note far = nearest_far_iff [OF False, of "1 / 10 ^ 8" w, folded i_def]
  show ?thesis
  proof (cases "1 / 10 ^ 8 < \<bar>RI_omega ri ! i - w\<bar>")
    case True
    then have "get_jf2 ri w af = Inl ValueError"
      using False by (simp add: get_jf2_def i_def Let_def)
    with True far show ?thesis by simp
  next
    case near: False
    obtain r where "(let pos = map (\<lambda>v. 0 < v) j in
           if sum_list (map (\<lambda>b. if b then 1 else 0) pos) \<noteq> (0 :: nat)
           then interp af (mask_select pos (RI_af ri)) (mask_select pos j) 0 0
           else Inr (map (\<lambda>a. a * 0) af)) = Inr r"
      using lookup_returns [OF len] by blast
    then have "get_jf2 ri w af = Inr r"
      using False near unfolding get_jf2_def i_def [symmetric] j_def [symmetric] Let_def
      by simp
    with near far show ?thesis by simp
  qed
qed

lemma get_jf1_error: "get_jf1 ri w af = Inl e \<Longrightarrow> e = ValueError"
  by (auto simp: get_jf1_def interp_def Let_def split: if_splits)

lemma get_jf2_error: "get_jf2 ri w af = Inl e \<Longrightarrow> e = ValueError"
  by (auto simp: get_jf2_def interp_def Let_def split: if_splits)

text \<open>
  Claim C4. For a \<open>ResInterp\<close> built from the target frequencies \<open>omega\<close>,
  \<open>get_jf1\<close> and \<open>get_jf2\<close> raise \<open>ValueError\<close> exactly when every frequency of
  \<open>omega\<close> is more than \<open>1e-8\<close> away from the queried one, that is, when the nearest
  is; otherwise they return.
\<close>

theorem get_jf_lookup_error:
  assumes "ResInterp_init c omega = Inr ri"
  shows "(get_jf1 ri w af = Inl ValueError \<longleftrightarrow> (\<forall>x \<in> set omega. 1 / 10 ^ 8 < \<bar>x - w\<bar>))
       \<and> ((\<exists>r. get_jf1 ri w af = Inr r) \<longleftrightarrow> \<not> (\<forall>x \<in> set omega. 1 / 10 ^ 8 < \<bar>x - w\<bar>))
       \<and> (get_jf2 ri w af = Inl ValueError \<longleftrightarrow> (\<forall>x \<in> set omega. 1 / 10 ^ 8 < \<bar>x - w\<bar>))
       \<and> ((\<exists>r. get_jf2 ri w af = Inr r) \<longleftrightarrow> \<not> (\<forall>x \<in> set omega. 1 / 10 ^ 8 < \<bar>x - w\<bar>))"
proof -
  note R = ResInterp_init_Inr [OF assms]
  have l: "length (RI_j1 ri) = length (RI_af ri)" "length (RI_j2 ri) = length (RI_af ri)"
    using R by simp_all
  have 1: "isl (get_jf1 ri w af) \<longleftrightarrow> (\<forall>x \<in> set omega. 1 / 10 ^ 8 < \<bar>x - w\<bar>)"
    using get_jf1_raises [OF l(1), of w af] R(4) by simp
  have 2: "isl (get_jf2 ri w af) \<longleftrightarrow> (\<forall>x \<in> set omega. 1 / 10 ^ 8 < \<bar>x - w\<bar>)"
    using get_jf2_raises [OF l(2), of w af] R(4) by simp
  have a: "get_jf1 ri w af = Inl ValueError \<longleftrightarrow> isl (get_jf1 ri w af)"
    using get_jf1_error [of ri w af] by (cases "get_jf1 ri w af") auto
  have b: "(\<exists>r. get_jf1 ri w af = Inr r) \<longleftrightarrow> \<not> isl (get_jf1 ri w af)"
    by (cases "get_jf1 ri w af") auto
  have c: "get_jf2 ri w af = Inl ValueError \<longleftrightarrow> isl (get_jf2 ri w af)"
    using get_jf2_error [of ri w af] by (cases "get_jf2 ri w af") auto
  have d: "(\<exists>r. get_jf2 ri w af = Inr r) \<longleftrightarrow> \<not> isl (get_jf2 ri w af)"
    by (cases "get_jf2 ri w af") auto
  show ?thesis unfolding a b c d 1 2 by simp
qed

text \<open>
  The theorem at \<open>toy_ri\<close>, whose only target frequency is \<open>1/10\<close>: a query at
  frequency 1 raises, a query at \<open>1/10\<close> returns.
\<close>

theorem get_jf_lookup_error_witness:
  "ResInterp_init toy_cusp [1 / 10] = Inr toy_ri
   \<and> get_jf1 toy_ri 1 [1] = Inl ValueError \<and> get_jf2 toy_ri 1 [1] = Inl ValueError
   \<and> (\<exists>r. get_jf1 toy_ri (1 / 10) [1] = Inr r) \<and> (\<exists>r. get_jf2 toy_ri (1 / 10) [1] = Inr r)"
proof -
  have near: "(\<forall>x \<in> set [1 / 10 :: real]. 1 / 10 ^ 8 < \<bar>x - 1 / 10\<bar>) = False"
  proof -
    have "(1 / 10 :: real) \<in> set [1 / 10]" by simp
    moreover have "\<not> 1 / 10 ^ 8 < \<bar>(1 / 10 :: real) - 1 / 10\<bar>" by simp
    ultimately show ?thesis by blast
  qed
  have far: "(\<forall>x \<in> set [1 / 10 :: real]. 1 / 10 ^ 8 < \<bar>x - 1\<bar>) = True"
    by auto
  show ?thesis
    using get_jf_lookup_error [OF toy_init, of 1 "[1]", unfolded far]
      get_jf_lookup_error [OF toy_init, of "1 / 10" "[1]", unfolded near] toy_init
    by blast
qed

subsection \<open>Lemmas: the rows of the table and their axis samples\<close>

lemma filter_lt_sorted:
  fixes g :: real
  assumes "sorted xs"
  shows "filter (\<lambda>a. a < g) xs = take (length (filter (\<lambda>a. a < g) xs)) xs"
  using assms
proof (induction xs)
  case Nil
  then show ?case by simp
next
  case (Cons x xs)
  show ?case
  proof (cases "x < g")
    case True
    with Cons show ?thesis by simp
  next
    case False
    with Cons.prems have "\<forall>y \<in> set xs. \<not> y < g" by fastforce
    then have "filter (\<lambda>a. a < g) xs = []" by (simp add: filter_empty_conv)
    with False show ?thesis by simp
  qed
qed

lemma filter_gt_sorted:
  fixes g :: real
  assumes "sorted xs"
  shows "filter (\<lambda>a. g < a) xs = drop (length xs - length (filter (\<lambda>a. g < a) xs)) xs"
  using assms
proof (induction xs)
  case Nil
  then show ?case by simp
next
  case (Cons x xs)
  show ?case
  proof (cases "g < x")
    case True
    with Cons.prems have "\<forall>y \<in> set xs. g < y" by fastforce
    then have "filter (\<lambda>a. g < a) xs = xs" by simp
    with True show ?thesis by simp
  next
    case False
    have "length (filter (\<lambda>a. g < a) xs) \<le> length xs" by simp
    then have "Suc (length xs) - length (filter (\<lambda>a. g < a) xs)
                 = Suc (length xs - length (filter (\<lambda>a. g < a) xs))"
      by (rule Suc_diff_le)
    with False Cons show ?thesis by simp
  qed
qed

lemma length_filter_lt_gt_eq:
  fixes g :: real
  shows "g \<notin> set xs \<Longrightarrow>
    length (filter (\<lambda>a. a < g) xs) + length (filter (\<lambda>a. g < a) xs) = length xs"
  by (induction xs) auto

lemma axis_sorted:
  assumes "0 < rg c" and "rg c \<le> rh c" and "cand_axis c omega \<noteq> []"
  shows "sorted (axis c omega)"
proof -
  define a_min where "a_min = Max (set (cand_axis c omega))"
  have "a_min \<in> set (cand_axis c omega)"
    unfolding a_min_def using assms(3) by (intro Max_in) auto
  then have mem: "a_min \<in> set (logspace (log 10 (rg c)) (log 10 (rh c)) 1000)"
    by (simp add: cand_axis_def)
  have le: "log 10 (rg c) \<le> log 10 (rh c)" using assms by simp
  from logspace_bounds [OF le _ mem]
  have "rg c \<le> a_min" "a_min \<le> rh c" using assms by simp_all
  then have "log 10 a_min \<le> log 10 (rh c)" using assms by simp
  then show ?thesis unfolding axis_def a_min_def [symmetric] by (rule sorted_logspace)
qed

lemma axis_alignment:
  assumes "0 < rg c" and "rg c \<le> rh c" and "cand_axis c omega \<noteq> []"
  shows "\<And>r. r < length (below_axis c omega) \<Longrightarrow> below_axis c omega ! r = axis c omega ! r"
    and "\<And>k. a_gr1 c \<notin> set (axis c omega) \<Longrightarrow> k < length (above_axis c omega) \<Longrightarrow>
           above_axis c omega ! k = axis c omega ! (length (below_axis c omega) + k)"
    and "a_gr1 c \<notin> set (axis c omega) \<Longrightarrow>
           length (below_axis c omega) + length (above_axis c omega) = length (axis c omega)"
    and "\<And>r. r < length (axis c omega) \<Longrightarrow> axis c omega ! r < a_gr1 c \<Longrightarrow>
           r < length (below_axis c omega)"
proof -
  note s = axis_sorted [OF assms]
  define nb where "nb = length (below_axis c omega)"
  define na where "na = length (above_axis c omega)"
  have b: "below_axis c omega = take nb (axis c omega)"
    unfolding nb_def below_axis_def using s by (rule filter_lt_sorted)
  have a: "above_axis c omega = drop (length (axis c omega) - na) (axis c omega)"
    unfolding na_def above_axis_def using s by (rule filter_gt_sorted)
  show "below_axis c omega ! r = axis c omega ! r" if "r < length (below_axis c omega)" for r
    using that b by (metis nb_def nth_take)
  show tot: "length (below_axis c omega) + length (above_axis c omega) = length (axis c omega)"
    if "a_gr1 c \<notin> set (axis c omega)"
    unfolding below_axis_def above_axis_def using that by (rule length_filter_lt_gt_eq)
  show "above_axis c omega ! k = axis c omega ! (length (below_axis c omega) + k)"
    if "a_gr1 c \<notin> set (axis c omega)" "k < length (above_axis c omega)" for k
  proof -
    have "length (axis c omega) - na = nb" using tot [OF that(1)] by (simp add: nb_def na_def)
    then have "above_axis c omega = drop nb (axis c omega)" using a by simp
    then have "above_axis c omega ! k = drop nb (axis c omega) ! k" by simp
    also have "\<dots> = axis c omega ! (nb + k)"
      using that(2) tot [OF that(1)] by (intro nth_drop) (simp add: nb_def)
    finally show ?thesis by (simp add: nb_def)
  qed
  show "r < length (below_axis c omega)" if "r < length (axis c omega)" "axis c omega ! r < a_gr1 c" for r
  proof (rule ccontr)
    assume "\<not> r < length (below_axis c omega)"
    then have "nb \<le> r" by (simp add: nb_def)
    have "axis c omega ! r \<in> set (below_axis c omega)"
      using that by (auto simp: below_axis_def)
    then obtain i where i: "i < nb" "below_axis c omega ! i = axis c omega ! r"
      by (auto simp: in_set_conv_nth nb_def)
    have nbl: "nb \<le> length (axis c omega)" by (simp add: nb_def below_axis_def)
    have "axis c omega ! nb \<le> axis c omega ! r"
      using s \<open>nb \<le> r\<close> that(1) by (intro sorted_nth_mono) auto
    moreover have "\<not> axis c omega ! nb < a_gr1 c"
    proof
      assume lt: "axis c omega ! nb < a_gr1 c"
      have "nb < length (axis c omega)" using \<open>nb \<le> r\<close> that(1) by simp
      have "\<forall>k \<le> nb. axis c omega ! k < a_gr1 c"
      proof (intro allI impI)
        fix k assume "k \<le> nb"
        then have "axis c omega ! k \<le> axis c omega ! nb"
          using s \<open>nb < length (axis c omega)\<close> by (intro sorted_nth_mono) auto
        with lt show "axis c omega ! k < a_gr1 c" by simp
      qed
      then have "\<forall>x \<in> set (take (Suc nb) (axis c omega)). x < a_gr1 c"
        using \<open>nb < length (axis c omega)\<close> by (auto simp: in_set_conv_nth)
      then have "filter (\<lambda>a. a < a_gr1 c) (take (Suc nb) (axis c omega)) = take (Suc nb) (axis c omega)"
        by simp
      then have "Suc nb \<le> length (filter (\<lambda>a. a < a_gr1 c) (take (Suc nb) (axis c omega) @ drop (Suc nb) (axis c omega)))"
        using \<open>nb < length (axis c omega)\<close> by (simp del: append_take_drop_id)
      then show False by (simp add: nb_def below_axis_def)
    qed
    ultimately show False using that(2) by simp
  qed
qed

lemma get_j_length: "get_j omega jf nup = Inr row \<Longrightarrow> length row = length omega"
  by (auto simp: get_j_def Let_def interp_def split: if_splits)

lemma row1_entries:
  assumes "row1 c omega a = Inr row" and "0 < jlc c a" and "jlc c a < 1"
  shows "length row = length omega" and "\<forall>v \<in> set row. v = 0 \<or> (jlc c a \<le> v \<and> v < 1)"
proof -
  note p = jf_samples_props [OF assms(2,3)]
  define hi where "hi = Max (set (jf_samples c a))"
  have ne: "jf_samples c a \<noteq> []" using p(1) by auto
  have "hi \<in> set (jf_samples c a)" unfolding hi_def using ne by (intro Max_in) auto
  then have hi1: "hi < 1" using p(4) by blast
  have "\<forall>v \<in> set (jf_samples c a). jlc c a \<le> v \<and> v \<le> hi"
    using p(4) by (auto simp: hi_def)
  from get_j_row [OF assms(1) [unfolded row1_def] _ this]
  show "length row = length omega" and "\<forall>v \<in> set row. v = 0 \<or> (jlc c a \<le> v \<and> v < 1)"
    using hi1 by fastforce+
qed



lemma mask_select_mem:
  assumes "length ms = length xs"
  shows "p \<in> set (mask_select ms xs) \<longleftrightarrow> (\<exists>r < length xs. ms ! r \<and> p = xs ! r)"
proof -
  have "p \<in> set (mask_select ms xs) \<longleftrightarrow> (True, p) \<in> set (zip ms xs)"
    by (force simp: mask_select_def)
  also have "\<dots> \<longleftrightarrow> (\<exists>r < length xs. ms ! r \<and> p = xs ! r)"
    using assms by (auto simp: set_zip)
  finally show ?thesis .
qed

subsection \<open>The range of \<open>get_jf1\<close> and \<open>get_jf2\<close>\<close>





lemma toy_axis_ends: "hd (logspace 0 1 1000) = 1" "last (logspace 0 1 1000) = 10"
proof -
  have ne: "logspace 0 1 1000 \<noteq> []" using length_logspace [of 0 1 1000] by auto
  show "hd (logspace 0 1 1000) = 1" using ne logspace_0_1(1) by (simp add: hd_conv_nth)
  have "last (logspace 0 1 1000) = logspace 0 1 1000 ! (1000 - 1)"
    using ne by (simp add: last_conv_nth length_logspace)
  also have "\<dots> = 10 powr 1" by (rule logspace_last) simp
  finally show "last (logspace 0 1 1000) = 10" by simp
qed









subsection \<open>The constructor at \<open>flip_drr\<close>\<close>

lemma flip_simps:
  "rg flip_drr = 1" "rh flip_drr = 10" "a_gr1 flip_drr = 10 powr (1 / 999)"
  "jlc flip_drr a = 1 / 10" "nu_p flip_drr a j = (if a \<le> 1 then j else j - 1 / 2)"
  "d_nu_p flip_drr a j = 1" "nu_p1 flip_drr a = (if a \<le> 1 then 1 else 0)"
  "inverse_cumulative_a flip_drr u = 1 + 9 * u" "DRR_sma flip_drr = 1"
  by (simp_all add: flip_drr_def DRR_init_def Let_def Cusp.defs DRR.defs flip_cusp_def)

lemma flip_grid: "DRR_j flip_drr = [1 / 10]" "DRR_omega flip_drr = [1 / 10]"
proof -
  show j: "DRR_j flip_drr = [1 / 10]"
    by (simp add: flip_drr_def DRR_init_j butlast_logspace flip_cusp_def)
  show "DRR_omega flip_drr = [1 / 10]"
    using j by (simp add: flip_drr_def DRR_init_omega flip_cusp_def)
qed

lemma powr_ge_by_power:
  fixes x :: real
  assumes "0 \<le> x" and "0 < n" and "x ^ n \<le> 10 powr (y * real n)"
  shows "x \<le> 10 powr y"
proof -
  have "(10 powr y) ^ n = 10 powr (y * real n)" by (simp add: powr_power mult.commute)
  with assms(3) have "x ^ n \<le> (10 powr y) ^ n" by simp
  then show ?thesis using assms(2) by (intro power_le_imp_le_base [of x "n - 1"]) simp_all
qed

lemma powr_le_by_power:
  fixes x :: real
  assumes "0 \<le> x" and "0 < n" and "10 powr (y * real n) \<le> x ^ n"
  shows "10 powr y \<le> x"
proof -
  have "(10 powr y) ^ n = 10 powr (y * real n)" by (simp add: powr_power mult.commute)
  with assms(3) have "(10 powr y) ^ n \<le> x ^ n" by simp
  then show ?thesis using assms by (intro power_le_imp_le_base [of "10 powr y" "n - 1"]) simp_all
qed

lemma powr_lt_by_power:
  fixes x :: real
  assumes "0 \<le> x" and "0 < n" and "10 powr (y * real n) < x ^ n"
  shows "10 powr y < x"
proof -
  have "(10 powr y) ^ n = 10 powr (y * real n)" by (simp add: powr_power mult.commute)
  with assms(3) have "(10 powr y) ^ n < x ^ n" by simp
  then show ?thesis using assms by (intro power_less_imp_less_base [of "10 powr y" n]) simp_all
qed

lemma powr_gt_by_power:
  fixes x :: real
  assumes "0 \<le> x" and "0 < n" and "x ^ n < 10 powr (y * real n)"
  shows "x < 10 powr y"
proof -
  have "(10 powr y) ^ n = 10 powr (y * real n)" by (simp add: powr_power mult.commute)
  with assms(3) have "x ^ n < (10 powr y) ^ n" by simp
  then show ?thesis by (intro power_less_imp_less_base [of x n]) simp_all
qed

lemma powr_minus_one: "(10 :: real) powr (- 1) = 1 / 10"
  by (simp add: powr_neg_one)

lemma ten_powr_facts:
  "3 / 10 \<le> (10 :: real) powr (- (1 / 2))"
  "(1 / 2 :: real) < 10 powr (- (1 / 4))"
  "(10 :: real) powr (- (1 / 4)) \<le> 7 / 10"
  "7 / 10 \<le> (10 :: real) powr (- (1 / 8))"
proof -
  show "3 / 10 \<le> (10 :: real) powr (- (1 / 2))"
    by (rule powr_ge_by_power [where n = 2]) (simp_all add: powr_minus_one power2_eq_square)
  show "(1 / 2 :: real) < 10 powr (- (1 / 4))"
    by (rule powr_gt_by_power [where n = 4]) (simp_all add: powr_minus_one power4_eq_xxxx)
  show "(10 :: real) powr (- (1 / 4)) \<le> 7 / 10"
    by (rule powr_le_by_power [where n = 4]) (simp_all add: powr_minus_one power4_eq_xxxx)
  show "7 / 10 \<le> (10 :: real) powr (- (1 / 8))"
    by (rule powr_ge_by_power [where n = 8]) (simp_all add: powr_minus_one power_divide)
qed

lemma flip_jl: "0 < jlc flip_drr a" "jlc flip_drr a < 1"
  by (simp_all add: flip_simps)

lemma flip_jf_mem:
  assumes "k < 1000"
  shows "10 powr (- 1 + real k / 1000) \<in> set (jf_samples flip_drr a)"
proof -
  have s: "log 10 (jlc flip_drr a) = - 1" by (simp add: flip_simps log_divide)
  have "jf_samples flip_drr a ! k = 10 powr (- 1 + real k / 1000)"
    using assms unfolding jf_samples_def s butlast_logspace by simp
  moreover have "k < length (jf_samples flip_drr a)"
    using assms jf_samples_props(1) [OF flip_jl, of a] by simp
  ultimately show ?thesis by (metis nth_mem)
qed

lemma flip_jf_members:
  "1 / 10 \<in> set (jf_samples flip_drr a)"
  "10 powr (- (1 / 2)) \<in> set (jf_samples flip_drr a)"
  "10 powr (- (1 / 4)) \<in> set (jf_samples flip_drr a)"
  "10 powr (- (1 / 8)) \<in> set (jf_samples flip_drr a)"
  using flip_jf_mem [of 0 a] flip_jf_mem [of 500 a] flip_jf_mem [of 750 a] flip_jf_mem [of 875 a]
  by (simp_all add: powr_neg_one)

lemma ten_powr_half_lt: "(10 :: real) powr (- (1 / 2)) < 1 / 2"
  by (rule powr_lt_by_power [where n = 2]) (simp_all add: powr_neg_one power2_eq_square)

lemma flip_jf_bounds:
  "\<exists>hi < 1. \<forall>v \<in> set (jf_samples flip_drr a). 1 / 10 \<le> v \<and> v \<le> hi"
proof -
  note p = jf_samples_props [OF flip_jl, of a]
  define hi where "hi = Max (set (jf_samples flip_drr a))"
  have ne: "jf_samples flip_drr a \<noteq> []" using p(1) by auto
  have "hi \<in> set (jf_samples flip_drr a)" unfolding hi_def using ne by (intro Max_in) auto
  then have "hi < 1" using p(4) by blast
  moreover have "\<forall>v \<in> set (jf_samples flip_drr a). 1 / 10 \<le> v \<and> v \<le> hi"
    using p(4) by (auto simp: hi_def flip_simps)
  ultimately show ?thesis by blast
qed

lemma flip_rows:
  assumes "1 < a"
  shows "\<exists>row. row1 flip_drr [1 / 5] a = Inr row \<and> 1 / 10 \<le> row ! 0 \<and> row ! 0 < 1"
    and "flips flip_drr a"
    and "\<exists>row. row2 flip_drr [1 / 5] a = Inr row \<and> 1 / 10 \<le> row ! 0 \<and> row ! 0 < 1"
proof -
  let ?jf = "jf_samples flip_drr a"
  let ?nup = "map (nu_p flip_drr a) ?jf"
  have nup: "?nup = map (\<lambda>j. j - 1 / 2) ?jf" using assms by (simp add: flip_simps)
  have mnup: "map uminus ?nup = map (\<lambda>j. 1 / 2 - j) ?jf" by (simp add: nup)
  obtain hi where hi: "hi < 1" "\<forall>v \<in> set ?jf. 1 / 10 \<le> v \<and> v \<le> hi"
    using flip_jf_bounds by blast
  note m = flip_jf_members [of a]
  note f = ten_powr_facts ten_powr_half_lt
  have u1: "10 powr (- (1 / 4)) - 1 / 2 \<in> set ?nup" using m(3) by (simp add: nup)
  have v1: "10 powr (- (1 / 8)) - 1 / 2 \<in> set ?nup" using m(4) by (simp add: nup)
  have "\<exists>v \<in> set ?nup. 0 < v" using u1 f(2) by (intro bexI [OF _ u1]) simp
  then obtain row where row: "get_j [1 / 5] ?jf ?nup = Inr row"
    using get_j_Inr_iff [of ?jf ?nup "[1 / 5]"] by auto
  have "1 / 10 \<le> row ! 0 \<and> row ! 0 \<le> hi"
    using f by (intro get_j_pos [OF row _ hi(2) _ u1 _ _ v1]) simp_all
  with row hi(1) show "\<exists>row. row1 flip_drr [1 / 5] a = Inr row \<and> 1 / 10 \<le> row ! 0 \<and> row ! 0 < 1"
    by (auto simp: row1_def)
  have n0: "- (2 / 5) \<in> set ?nup"
    unfolding nup set_map by (rule image_eqI [OF _ m(1)]) simp
  show "flips flip_drr a"
    unfolding flips_def list_ex_iff by (rule bexI [OF _ n0]) simp
  have u2: "1 / 2 - 10 powr (- (1 / 2)) \<in> set (map uminus ?nup)" using m(2) unfolding mnup by simp
  have v2: "2 / 5 \<in> set (map uminus ?nup)"
    unfolding mnup set_map by (rule image_eqI [OF _ m(1)]) simp
  have "\<exists>v \<in> set (map uminus ?nup). 0 < v" by (intro bexI [OF _ v2]) simp
  then obtain row' where row': "get_j [1 / 5] ?jf (map uminus ?nup) = Inr row'"
    using get_j_Inr_iff [of ?jf "map uminus ?nup" "[1 / 5]"] by auto
  have "1 / 10 \<le> row' ! 0 \<and> row' ! 0 \<le> hi"
    using f by (intro get_j_pos [OF row' _ hi(2) _ u2 _ _ v2]) simp_all
  with row' hi(1) show "\<exists>row. row2 flip_drr [1 / 5] a = Inr row \<and> 1 / 10 \<le> row ! 0 \<and> row ! 0 < 1"
    by (auto simp: row2_def)
qed

lemma flip_row_low:
  assumes "a \<le> 1"
  shows "\<exists>row. row1 flip_drr [1 / 5] a = Inr row"
proof -
  let ?jf = "jf_samples flip_drr a"
  have nup: "map (nu_p flip_drr a) ?jf = ?jf" using assms by (intro map_idI) (simp add: flip_simps)
  have "\<exists>v \<in> set ?jf. 0 < v" using flip_jf_members(1) [of a] by (intro bexI [of _ "1 / 10"]) simp_all
  then show ?thesis
    using get_j_Inr_iff [of ?jf ?jf "[1 / 5]"] by (simp add: row1_def nup)
qed

lemma filter_at_sample:
  fixes xs :: "real list"
  assumes "sorted_wrt (<) xs" and "k < length xs"
  shows "filter (\<lambda>a. a < xs ! k) xs = take k xs"
    and "filter (\<lambda>a. xs ! k < a) xs = drop (Suc k) xs"
proof -
  have lo: "\<forall>a \<in> set (take k xs). a < xs ! k"
  proof
    fix a assume "a \<in> set (take k xs)"
    then obtain i where "i < k" "a = xs ! i"
      using assms(2) by (auto simp: in_set_conv_nth)
    then show "a < xs ! k" using assms by (simp add: sorted_wrt_iff_nth_less)
  qed
  have hi: "\<forall>a \<in> set (drop (Suc k) xs). xs ! k < a"
  proof
    fix a assume "a \<in> set (drop (Suc k) xs)"
    then obtain i where "i < length xs - Suc k" "a = xs ! (Suc k + i)"
      by (auto simp: in_set_conv_nth)
    then show "xs ! k < a" using assms by (simp add: sorted_wrt_iff_nth_less)
  qed
  have split: "xs = take k xs @ xs ! k # drop (Suc k) xs"
    using assms(2) by (rule id_take_nth_drop)
  have a: "filter (\<lambda>a. a < xs ! k) (take k xs) = take k xs" using lo by simp
  have b: "filter (\<lambda>a. a < xs ! k) (drop (Suc k) xs) = []"
    using hi by (auto simp: filter_empty_conv)
  have c: "filter (\<lambda>a. xs ! k < a) (take k xs) = []"
    using lo by (auto simp: filter_empty_conv)
  have d: "filter (\<lambda>a. xs ! k < a) (drop (Suc k) xs) = drop (Suc k) xs" using hi by simp
  have "filter (\<lambda>a. a < xs ! k) (take k xs @ xs ! k # drop (Suc k) xs) = take k xs"
    by (simp add: a b)
  then show "filter (\<lambda>a. a < xs ! k) xs = take k xs" using split by simp
  have "filter (\<lambda>a. xs ! k < a) (take k xs @ xs ! k # drop (Suc k) xs) = drop (Suc k) xs"
    by (simp add: c d)
  then show "filter (\<lambda>a. xs ! k < a) xs = drop (Suc k) xs" using split by simp
qed

lemma flip_axis0: "logspace 0 1 1000 ! 1 = 10 powr (1 / 999)"
  by (simp add: logspace_nth)

lemma flip_cand: "cand_axis flip_drr [1 / 5] = [1]"
proof -
  let ?xs = "logspace 0 1 1000"
  have ne: "?xs \<noteq> []" using length_logspace [of 0 1 1000] by auto
  have hd: "hd ?xs = 1" by (rule toy_axis_ends)
  have g: "(1 :: real) < 10 powr (1 / 999)" by simp
  have g': "a < 10 powr (1 / 999)" if "a \<le> 1" for a :: real
    using that g by (rule le_less_trans)
  have "filter (\<lambda>a. a < 10 powr (1 / 999) \<and> Max (set [1 / 5 :: real]) < (if a \<le> 1 then 1 else 0)) ?xs
          = filter (\<lambda>a. a \<le> hd ?xs) ?xs"
    using g' by (intro filter_cong) (auto simp: hd)
  also have "\<dots> = [hd ?xs]"
    by (intro filter_le_hd strict_sorted_logspace ne) simp_all
  finally show ?thesis by (simp add: cand_axis_def flip_simps hd)
qed

lemma flip_axis: "axis flip_drr [1 / 5] = logspace 0 1 1000"
  by (simp add: axis_def flip_cand flip_simps)

lemma flip_below: "below_axis flip_drr [1 / 5] = take 1 (logspace 0 1 1000)"
  unfolding below_axis_def flip_axis flip_simps flip_axis0 [symmetric]
  by (rule filter_at_sample) (simp_all add: strict_sorted_logspace length_logspace)

lemma flip_above: "above_axis flip_drr [1 / 5] = drop 2 (logspace 0 1 1000)"
proof -
  have "filter (\<lambda>a. logspace 0 1 1000 ! 1 < a) (logspace 0 1 1000) = drop (Suc 1) (logspace 0 1 1000)"
    by (rule filter_at_sample) (simp_all add: strict_sorted_logspace length_logspace)
  then show ?thesis
    unfolding above_axis_def flip_axis flip_simps flip_axis0 [symmetric] by (simp add: numeral_2_eq_2)
qed

lemma flip_above_gt:
  assumes "a \<in> set (above_axis flip_drr [1 / 5])" shows "1 < a"
proof -
  have h: "10 powr (1 / 999) < a" using assms by (simp add: above_axis_def flip_simps)
  have g: "(1 :: real) < 10 powr (1 / 999)" by simp
  show ?thesis using g h by (rule less_trans)
qed

lemma flip_below_le:
  assumes "a \<in> set (below_axis flip_drr [1 / 5])" shows "a \<le> 1"
proof -
  have "take 1 (logspace 0 1 1000) = [logspace 0 1 1000 ! 0]"
    by (simp add: take_Suc_conv_app_nth length_logspace)
  with assms show ?thesis by (simp add: flip_below logspace_0_1(1))
qed

lemma flip_init:
  "\<exists>ri. ResInterp_init flip_drr [1 / 5] = Inr ri
     \<and> RI_omega ri = [1 / 5] \<and> RI_af ri = logspace 0 1 1000
     \<and> length (RI_j1 ri) = 1000 \<and> length (RI_j2 ri) = 1000
     \<and> (\<forall>r. 1 \<le> r \<and> r \<le> 998 \<longrightarrow>
           1 / 10 \<le> RI_j1 ri ! r ! 0 \<and> RI_j1 ri ! r ! 0 < 1
           \<and> 1 / 10 \<le> RI_j2 ri ! r ! 0 \<and> RI_j2 ri ! r ! 0 < 1)
     \<and> (RI_j1 ri ! 0 ! 0 = 0 \<or> (1 / 10 \<le> RI_j1 ri ! 0 ! 0 \<and> RI_j1 ri ! 0 ! 0 < 1))
     \<and> RI_j2 ri ! 0 ! 0 = 0 \<and> RI_j1 ri ! 999 ! 0 = 0 \<and> RI_j2 ri ! 999 ! 0 = 0"
proof -
  have lb: "length (below_axis flip_drr [1 / 5]) = 1"
    by (simp add: flip_below length_logspace)
  have la: "length (above_axis flip_drr [1 / 5]) = 998"
    by (simp add: flip_above length_logspace)
  have bne: "below_axis flip_drr [1 / 5] \<noteq> []" using lb by auto
  have b: "\<forall>a \<in> set (below_axis flip_drr [1 / 5]). \<exists>row. row1 flip_drr [1 / 5] a = Inr row"
    using flip_below_le flip_row_low by blast
  have a: "\<forall>a \<in> set (above_axis flip_drr [1 / 5]). (\<exists>row. row1 flip_drr [1 / 5] a = Inr row)
            \<and> (flips flip_drr a \<longrightarrow> (\<exists>row. row2 flip_drr [1 / 5] a = Inr row))"
    using flip_above_gt flip_rows by blast
  obtain ri where ri: "ResInterp_init flip_drr [1 / 5] = Inr ri"
    using ResInterp_init_succeeds [OF _ _ bne b a] by (auto simp: flip_cand)
  note R = ResInterp_init_Inr [OF ri, unfolded lb la flip_axis length_logspace]
  have mid: "1 / 10 \<le> RI_j1 ri ! r ! 0 \<and> RI_j1 ri ! r ! 0 < 1
           \<and> 1 / 10 \<le> RI_j2 ri ! r ! 0 \<and> RI_j2 ri ! r ! 0 < 1" if "1 \<le> r" "r \<le> 998" for r
  proof -
    define k where "k = r - 1"
    have k: "k < 998" "Suc k = r" using that by (simp_all add: k_def)
    define a where "a = above_axis flip_drr [1 / 5] ! k"
    have "a \<in> set (above_axis flip_drr [1 / 5])" using k(1) la by (simp add: a_def)
    then have gt: "1 < a" by (rule flip_above_gt)
    note F = flip_rows [OF gt]
    from R(9) [OF k(1)] F(2)
    have "row1 flip_drr [1 / 5] a = Inr (RI_j1 ri ! r)" "row2 flip_drr [1 / 5] a = Inr (RI_j2 ri ! r)"
      by (simp_all add: a_def k(2))
    with F(1,3) show ?thesis by auto
  qed
  have r0: "row1 flip_drr [1 / 5] (below_axis flip_drr [1 / 5] ! 0) = Inr (RI_j1 ri ! 0)"
    "RI_j2 ri ! 0 = replicate (length [1 / 5 :: real]) 0"
    using R(8) [of 0] by simp_all
  have e0: "RI_j1 ri ! 0 ! 0 = 0 \<or> (1 / 10 \<le> RI_j1 ri ! 0 ! 0 \<and> RI_j1 ri ! 0 ! 0 < 1)"
  proof -
    note e = row1_entries [OF r0(1) flip_jl]
    have "RI_j1 ri ! 0 ! 0 \<in> set (RI_j1 ri ! 0)" using e(1) by simp
    with e(2) show ?thesis by (auto simp: flip_simps)
  qed
  have r999: "RI_j1 ri ! 999 = replicate (length [1 / 5 :: real]) 0 \<and> RI_j2 ri ! 999 = replicate (length [1 / 5 :: real]) 0"
    using R(10) [of 999] by simp
  show ?thesis
    using ri R(4) R(5) R(6) R(7) mid e0 r0(2) r999
    by (intro exI [of _ ri]) simp
qed

lemma sorted_mask_select: "sorted (xs :: real list) \<Longrightarrow> sorted (mask_select ms xs)"
proof (induction xs arbitrary: ms)
  case Nil
  then show ?case by (simp add: mask_select_def)
next
  case (Cons x xs)
  show ?case
  proof (cases ms)
    case Nil
    then show ?thesis by (simp add: mask_select_def)
  next
    case (Cons b ms')
    have s: "sorted (mask_select ms' xs)" using Cons.IH Cons.prems by simp
    have "\<forall>y \<in> set (mask_select ms' xs). x \<le> y"
      using Cons.prems set_mask_select [of ms' xs] by auto
    with s show ?thesis by (cases b) (simp_all add: Cons mask_select_Cons)
  qed
qed

lemma column_lookup_inside:
  assumes len: "length col = length afs" and srt: "sorted afs"
    and lo: "r < length afs" "0 < col ! r" "afs ! r \<le> x"
    and hi: "r' < length afs" "0 < col ! r'" "x \<le> afs ! r'"
    and b: "\<forall>v \<in> set col. 0 < v \<longrightarrow> l \<le> v \<and> v \<le> h"
  shows "\<exists>y. (let pos = map (\<lambda>v. 0 < v) col in
           if sum_list (map (\<lambda>b. if b then 1 else 0) pos) \<noteq> (0 :: nat)
           then interp [x] (mask_select pos afs) (mask_select pos col) 0 0
           else Inr (map (\<lambda>a. a * 0) [x])) = Inr [y] \<and> l \<le> y \<and> y \<le> h"
proof -
  define pos where "pos = map (\<lambda>v. 0 < v) col"
  define xp where "xp = mask_select pos afs"
  define fp where "fp = mask_select pos col"
  define ps where "ps = zip xp fp"
  have lpos: "length pos = length afs" "length pos = length col" using len by (simp_all add: pos_def)
  have mem_lo: "afs ! r \<in> set xp" and mem_hi: "afs ! r' \<in> set xp"
    unfolding xp_def mask_select_mem [OF lpos(1)] using lo hi len by (auto simp: pos_def)
  have sx: "sorted xp" unfolding xp_def using srt by (rule sorted_mask_select)
  have xne: "xp \<noteq> []" using mem_lo by auto
  have lxf: "length fp = length xp"
    unfolding xp_def fp_def using lpos by (simp add: length_mask_select)
  have fne: "fp \<noteq> []" using xne lxf by auto
  have "length xp = length (filter id pos)"
    unfolding xp_def using lpos(1) by (rule length_mask_select)
  then have cnt: "sum_list (map (\<lambda>b. if b then 1 else 0) pos) \<noteq> (0 :: nat)"
    unfolding count_true_pos using xne by auto
  have range: "hd xp \<le> x" "x \<le> last xp"
    using sorted_hd_le [OF sx mem_lo] sorted_le_last [OF sx mem_hi] lo(3) hi(3) by simp_all
  have pne: "ps \<noteq> []" using xne fne by (simp add: ps_def)
  have ends: "fst (hd ps) = hd xp" "fst (last ps) = last xp"
    using xne fne lxf by (simp_all add: ps_def hd_zip last_zip')
  have bnd: "\<forall>p \<in> set ps. l \<le> snd p \<and> snd p \<le> h"
  proof
    fix p assume "p \<in> set ps"
    then have "snd p \<in> set fp" unfolding ps_def by (metis in_set_zipE prod.collapse)
    then obtain i where "i < length col" "pos ! i" "snd p = col ! i"
      unfolding fp_def mask_select_mem [OF lpos(2)] by blast
    then show "l \<le> snd p \<and> snd p \<le> h" using b by (auto simp: pos_def)
  qed
  from interp_pt_inside [OF pne _ _ bnd, of x 0 0] range ends
  have "l \<le> interp_pt x ps 0 0 \<and> interp_pt x ps 0 0 \<le> h" by simp
  then show ?thesis
    unfolding Let_def pos_def [symmetric] xp_def [symmetric] fp_def [symmetric]
    using cnt xne lxf by (simp add: interp_def ps_def)
qed

lemma flip_axis_samples:
  "logspace 0 1 1000 ! 1 \<le> 5" "5 \<le> logspace 0 1 1000 ! 750"
proof -
  have "(10 :: real) powr (1 / 999) \<le> 10 powr (1 / 2)" by (intro powr_mono) simp_all
  also have "\<dots> \<le> 5"
    by (rule powr_le_by_power [where n = 2]) (simp_all add: power2_eq_square)
  finally show "logspace 0 1 1000 ! 1 \<le> 5" by (simp add: logspace_nth)
  have "(5 :: real) \<le> 10 powr (3 / 4)"
    by (rule powr_ge_by_power [where n = 4]) (simp_all add: power4_eq_xxxx)
  also have "\<dots> \<le> 10 powr (750 / 999)" by (intro powr_mono) simp_all
  finally show "5 \<le> logspace 0 1 1000 ! 750" by (simp add: logspace_nth)
qed

lemma flip_lookup:
  assumes tbl: "length tbl = 1000"
    and mid: "\<And>r. 1 \<le> r \<Longrightarrow> r \<le> 998 \<Longrightarrow> 1 / 10 \<le> tbl ! r ! 0 \<and> tbl ! r ! 0 < 1"
    and rest: "\<And>r. r < 1000 \<Longrightarrow> tbl ! r ! 0 = 0 \<or> (1 / 10 \<le> tbl ! r ! 0 \<and> tbl ! r ! 0 < 1)"
  shows "\<exists>y. (let pos = map (\<lambda>v. 0 < v) (map (\<lambda>row. row ! 0) tbl) in
           if sum_list (map (\<lambda>b. if b then 1 else 0) pos) \<noteq> (0 :: nat)
           then interp [5] (mask_select pos (logspace 0 1 1000)) (mask_select pos (map (\<lambda>row. row ! 0) tbl)) 0 0
           else Inr (map (\<lambda>a. a * 0) [5])) = Inr [y] \<and> 0 < y \<and> y < 1"
proof -
  define col where "col = map (\<lambda>row. row ! 0) tbl"
  define h where "h = Max (insert (1 / 10) (set col \<inter> {v. v < 1}))"
  have len: "length col = length (logspace 0 1 1000)" by (simp add: col_def tbl length_logspace)
  have cn: "col ! r = tbl ! r ! 0" if "r < 1000" for r using that by (simp add: col_def tbl)
  have h_in: "h \<in> insert (1 / 10) (set col \<inter> {v. v < 1})"
    unfolding h_def by (intro Max_in) auto
  then have h1: "h < 1" by auto
  have b: "\<forall>v \<in> set col. 0 < v \<longrightarrow> 1 / 10 \<le> v \<and> v \<le> h"
  proof (intro ballI impI)
    fix v assume v: "v \<in> set col" "0 < v"
    then obtain r where r: "r < 1000" "v = col ! r"
      using len by (auto simp: in_set_conv_nth length_logspace)
    with rest [OF r(1)] v(2) have "1 / 10 \<le> v \<and> v < 1" by (simp add: cn)
    moreover from this v(1) have "v \<le> h" unfolding h_def by (intro Max_ge) auto
    ultimately show "1 / 10 \<le> v \<and> v \<le> h" by simp
  qed
  have p1: "0 < col ! 1" and p750: "0 < col ! 750"
    using mid [of 1] mid [of 750] by (simp_all add: cn)
  from column_lookup_inside [OF len sorted_logspace _ p1 flip_axis_samples(1) _ p750 flip_axis_samples(2) b]
  obtain y where "(let pos = map (\<lambda>v. 0 < v) col in
           if sum_list (map (\<lambda>b. if b then 1 else 0) pos) \<noteq> (0 :: nat)
           then interp [5] (mask_select pos (logspace 0 1 1000)) (mask_select pos col) 0 0
           else Inr (map (\<lambda>a. a * 0) [5])) = Inr [y]" "1 / 10 \<le> y" "y \<le> h"
    by (auto simp: length_logspace)
  with h1 show ?thesis unfolding col_def by (intro exI [of _ y]) auto
qed

lemma A2_integrand_pt_pos:
  assumes "0 < sma" "0 < j" "j < 1" "0 < a" "0 < jp" "jp < 1"
  shows "0 < A2_integrand_pt sma j a jp (l, n, n_p) (0, 0, 0, 0)"
proof -
  have e: "0 < 1 - sqrt (1 - x\<^sup>2)" "0 < 1 - (sqrt (1 - x\<^sup>2))\<^sup>2" if "0 < x" "x < 1" for x :: real
  proof -
    have x2: "0 < x\<^sup>2" "x\<^sup>2 < 1" using that by (simp_all add: abs_square_less_1)
    then have "sqrt (1 - x\<^sup>2) < sqrt 1" by (intro real_sqrt_less_mono) simp
    then show "0 < 1 - sqrt (1 - x\<^sup>2)" by simp
    have "(sqrt (1 - x\<^sup>2))\<^sup>2 = 1 - x\<^sup>2" using x2 by simp
    then show "0 < 1 - (sqrt (1 - x\<^sup>2))\<^sup>2" using x2 by simp
  qed
  define r where "r = sma * (1 - (sqrt (1 - j\<^sup>2))\<^sup>2) / (1 - sqrt (1 - j\<^sup>2))"
  define rp where "rp = a * (1 - (sqrt (1 - jp\<^sup>2))\<^sup>2) / (1 - sqrt (1 - jp\<^sup>2))"
  have r: "0 < r" unfolding r_def using assms e [of j] by (intro divide_pos_pos mult_pos_pos) simp_all
  have rp: "0 < rp" unfolding rp_def using assms e [of jp] by (intro divide_pos_pos mult_pos_pos) simp_all
  have m: "0 < min r rp * min r rp" using r rp by simp
  have q: "0 < r * r * rp * rp" using r rp by simp
  have "A2_integrand_pt sma j a jp (l, n, n_p) (0, 0, 0, 0)
          = 1 / j\<^sup>2 / jp\<^sup>2 / sma\<^sup>2 / a ^ 4
            * power_int (min r rp * min r rp) (2 * l + 1) / power_int (r * r * rp * rp) (l - 1)"
    unfolding A2_integrand_pt_def Let_def prod.case r_def rp_def mult_zero_left cos_zero
      mult_1_right mult_1_left ..
  also have "0 < \<dots>"
    using assms r rp by (intro divide_pos_pos mult_pos_pos zero_less_power_int) simp_all
  finally show ?thesis .
qed

lemma flip_get_jf:
  assumes "RI_omega ri = [1 / 5]" and "RI_af ri = logspace 0 1 1000"
  shows "get_jf1 ri (1 / 5) [5] =
         (let pos = map (\<lambda>v. 0 < v) (map (\<lambda>row. row ! 0) (RI_j1 ri)) in
           if sum_list (map (\<lambda>b. if b then 1 else 0) pos) \<noteq> (0 :: nat)
           then interp [5] (mask_select pos (logspace 0 1 1000)) (mask_select pos (map (\<lambda>row. row ! 0) (RI_j1 ri))) 0 0
           else Inr (map (\<lambda>a. a * 0) [5]))"
    and "get_jf2 ri (1 / 5) [5] =
         (let pos = map (\<lambda>v. 0 < v) (map (\<lambda>row. row ! 0) (RI_j2 ri)) in
           if sum_list (map (\<lambda>b. if b then 1 else 0) pos) \<noteq> (0 :: nat)
           then interp [5] (mask_select pos (logspace 0 1 1000)) (mask_select pos (map (\<lambda>row. row ! 0) (RI_j2 ri))) 0 0
           else Inr (map (\<lambda>a. a * 0) [5]))"
proof -
  have i: "argmin (map (\<lambda>w. \<bar>w - 1 / 5\<bar>) [1 / 5 :: real]) = 0" by simp
  have near: "\<not> 1 / 10 ^ 8 < \<bar>[1 / 5 :: real] ! 0 - 1 / 5\<bar>" by simp
  have ne: "[1 / 5 :: real] \<noteq> []" by simp
  show "get_jf1 ri (1 / 5) [5] =
         (let pos = map (\<lambda>v. 0 < v) (map (\<lambda>row. row ! 0) (RI_j1 ri)) in
           if sum_list (map (\<lambda>b. if b then 1 else 0) pos) \<noteq> (0 :: nat)
           then interp [5] (mask_select pos (logspace 0 1 1000)) (mask_select pos (map (\<lambda>row. row ! 0) (RI_j1 ri))) 0 0
           else Inr (map (\<lambda>a. a * 0) [5]))"
    unfolding get_jf1_def assms i Let_def if_not_P [OF near] if_not_P [OF ne] ..
  show "get_jf2 ri (1 / 5) [5] =
         (let pos = map (\<lambda>v. 0 < v) (map (\<lambda>row. row ! 0) (RI_j2 ri)) in
           if sum_list (map (\<lambda>b. if b then 1 else 0) pos) \<noteq> (0 :: nat)
           then interp [5] (mask_select pos (logspace 0 1 1000)) (mask_select pos (map (\<lambda>row. row ! 0) (RI_j2 ri))) 0 0
           else Inr (map (\<lambda>a. a * 0) [5]))"
    unfolding get_jf2_def assms i Let_def if_not_P [OF near] if_not_P [OF ne] ..
qed

subsection \<open>The rows of the branch-2 table\<close>

text \<open>
  The rows of the branch-2 table when no axis sample equals \<open>a_gr1\<close>. For
  \<open>0 < r_g <= r_h\<close>: a row whose axis sample lies below \<open>a_gr1\<close> is zero, and, when
  no axis sample equals \<open>a_gr1\<close>, a row that is not zero belongs to an axis sample
  above \<open>a_gr1\<close> at which some sampled precession frequency is negative.
\<close>

theorem branch2_rows:
  assumes init: "ResInterp_init c omega = Inr ri" and rg: "0 < rg c" "rg c \<le> rh c"
    and r: "r < length (RI_af ri)"
  shows "(RI_af ri ! r < a_gr1 c \<longrightarrow> RI_j2 ri ! r = replicate (length omega) 0)
     \<and> (a_gr1 c \<notin> set (RI_af ri) \<and> RI_j2 ri ! r \<noteq> replicate (length omega) 0
          \<longrightarrow> a_gr1 c < RI_af ri ! r \<and> flips c (RI_af ri ! r))"
proof -
  note R = ResInterp_init_Inr [OF init]
  note A = axis_alignment [OF rg R(2)]
  define nb where "nb = length (below_axis c omega)"
  define na where "na = length (above_axis c omega)"
  have r': "r < length (axis c omega)" using r R(5) by simp
  have 1: "RI_j2 ri ! r = replicate (length omega) 0" if "RI_af ri ! r < a_gr1 c"
  proof -
    have "r < nb" using A(4) [OF r'] that R(5) by (simp add: nb_def)
    then show ?thesis using R(8) by (simp add: nb_def)
  qed
  have 2: "a_gr1 c < RI_af ri ! r \<and> flips c (RI_af ri ! r)"
    if ng: "a_gr1 c \<notin> set (RI_af ri)" and nz: "RI_j2 ri ! r \<noteq> replicate (length omega) 0"
  proof -
    have ng': "a_gr1 c \<notin> set (axis c omega)" using ng R(5) by simp
    have "\<not> r < nb" using R(8) [of r] nz by (auto simp: nb_def)
    moreover have "nb + na = length (axis c omega)" using A(3) [OF ng'] by (simp add: nb_def na_def)
    ultimately obtain k where k: "k < na" "nb + k = r"
      using r' by (metis add_diff_inverse_nat nat_add_left_cancel_less)
    have kk: "k < length (above_axis c omega)" using k(1) by (simp add: na_def)
    have al: "above_axis c omega ! k = RI_af ri ! r"
      using A(2) [OF ng' kk] k(2) R(5) by (simp add: nb_def)
    have "above_axis c omega ! k \<in> set (above_axis c omega)" using kk by simp
    then have "a_gr1 c < above_axis c omega ! k" unfolding above_axis_def by simp
    then have gt: "a_gr1 c < RI_af ri ! r" by (simp only: al)
    have "flips c (above_axis c omega ! k)"
      using R(9) [OF kk] nz k(2) by (auto simp: nb_def split: if_splits)
    with gt al show ?thesis by simp
  qed
  from 1 2 show ?thesis by blast
qed

text \<open>
  The theorem at \<open>toy_ri\<close>: its first axis sample 1 lies below \<open>a_gr1 = 100\<close> and
  row 0 of the branch-2 table is zero.
\<close>

theorem branch2_rows_witness:
  "RI_af toy_ri ! 0 < a_gr1 toy_cusp \<and> RI_j2 toy_ri ! 0 = [0]"
proof -
  have r: "0 < length (RI_af toy_ri)" by (simp add: toy_ri_def length_logspace)
  have lt: "RI_af toy_ri ! 0 < a_gr1 toy_cusp"
    by (simp add: toy_ri_def logspace_0_1(1) toy_cusp_simps)
  from branch2_rows [OF toy_init _ _ r] lt show ?thesis by (simp add: toy_cusp_simps)
qed

text \<open>
  Claim C6 at \<open>flip_drr\<close> with the target frequency \<open>1/5\<close>, where the axis sample of
  row 1 is \<open>a_gr1\<close> itself. Both loops skip that sample (\<open>af < a_gr1\<close>, \<open>af > a_gr1\<close>),
  the second loop starts writing at row \<open>last = 1\<close>, and the rows above are written
  one place too low: row 1 of the branch-2 table is not zero although its axis
  sample is not above \<open>a_gr1\<close>, and row 999 stays zero although its axis sample is
  above \<open>a_gr1\<close> and has negative sampled frequencies.
\<close>

theorem branch2_row_at_critical_sample:
  "\<exists>ri. ResInterp_init flip_drr [1 / 5] = Inr ri
     \<and> RI_af ri ! 1 = a_gr1 flip_drr \<and> 0 < RI_j2 ri ! 1 ! 0
     \<and> a_gr1 flip_drr < RI_af ri ! 999 \<and> flips flip_drr (RI_af ri ! 999) \<and> RI_j2 ri ! 999 ! 0 = 0"
proof -
  obtain ri where ri: "ResInterp_init flip_drr [1 / 5] = Inr ri"
    and af: "RI_af ri = logspace 0 1 1000"
    and mid: "\<And>r. 1 \<le> r \<Longrightarrow> r \<le> 998 \<Longrightarrow>
           1 / 10 \<le> RI_j1 ri ! r ! 0 \<and> RI_j1 ri ! r ! 0 < 1
           \<and> 1 / 10 \<le> RI_j2 ri ! r ! 0 \<and> RI_j2 ri ! r ! 0 < 1"
    and z: "RI_j2 ri ! 999 ! 0 = 0"
    using flip_init by blast
  have a1: "RI_af ri ! 1 = a_gr1 flip_drr" unfolding af flip_simps by (rule flip_axis0)
  have p: "0 < RI_j2 ri ! 1 ! 0" using mid [of 1] by simp
  have "logspace 0 1 1000 ! 1 < logspace 0 1 1000 ! 999"
    using strict_sorted_logspace [of 0 1 1000]
    by (simp add: sorted_wrt_iff_nth_less length_logspace)
  then have g: "a_gr1 flip_drr < RI_af ri ! 999" unfolding af flip_simps flip_axis0 .
  have one: "(1 :: real) < 10 powr (1 / 999)" by simp
  have "10 powr (1 / 999) < RI_af ri ! 999" using g by (simp add: flip_simps)
  with one have "1 < RI_af ri ! 999" by (rule less_trans)
  then have f: "flips flip_drr (RI_af ri ! 999)" by (rule flip_rows)
  from ri a1 p g f z show ?thesis by blast
qed

subsection \<open>Both branches at one sample\<close>

lemma Clnnp_branches:
  assumes ri: "u_res_intrp d ratio = Inr ri"
    and j1: "get_jf1 ri (omega * ratio) (map (\<lambda>(x1, x2, x3, x4, x5). inverse_cumulative_a d x5) x) = Inr jf1"
    and j2: "get_jf2 ri (omega * ratio) (map (\<lambda>(x1, x2, x3, x4, x5). inverse_cumulative_a d x5) x) = Inr jf2"
    and k: "k < length x" and xk: "x ! k = (x1, x2, x3, x4, x5)"
  shows "\<exists>r. Clnnp d j omega lnnp ratio x = Inr r \<and> length r = length x
     \<and> r ! k = (if 0 < jf2 ! k
                then u_integrand_pt d j (inverse_cumulative_a d x5) (jf2 ! k) lnnp (x1 * pi, x2 * pi, x3 * pi, x4 * pi)
                else if 0 < jf1 ! k
                then u_integrand_pt d j (inverse_cumulative_a d x5) (jf1 ! k) lnnp (x1 * pi, x2 * pi, x3 * pi, x4 * pi)
                else 0)"
proof -
  define ta where "ta = map (\<lambda>(x1, x2, x3, x4, x5). (x1 * pi, x2 * pi, x3 * pi, x4 * pi)) x"
  define sma_f where "sma_f = map (\<lambda>(x1, x2, x3, x4, x5). inverse_cumulative_a d x5) x"
  define ix1 where "ix1 = map (\<lambda>v. 0 < v) jf1"
  define ix2 where "ix2 = map (\<lambda>v. 0 < v) jf2"
  define x0 where "x0 = map (\<lambda>a. 0 :: real) sma_f"
  define xa where "xa = mask_assign x0 ix1
     (u_integrand d j (mask_select ix1 sma_f) (mask_select ix1 jf1) lnnp (mask_select ix1 ta))"
  define xb where "xb = mask_assign xa ix2
     (u_integrand d j (mask_select ix2 sma_f) (mask_select ix2 jf2) lnnp (mask_select ix2 ta))"
  have l1: "length jf1 = length x" using get_jf1_length [OF j1] by simp
  have l2: "length jf2 = length x" using get_jf2_length [OF j2] by simp
  have ls: "length sma_f = length x" "length ta = length x" "length x0 = length x"
    by (simp_all add: sma_f_def ta_def x0_def)
  have la: "length xa = length x" by (simp add: xa_def length_mask_assign ls)
  have res: "Clnnp d j omega lnnp ratio x = Inr xb"
    using ri j1 j2
    unfolding Clnnp_def Let_def xb_def xa_def x0_def ix1_def ix2_def sma_f_def ta_def
    by simp
  have tak: "ta ! k = (x1 * pi, x2 * pi, x3 * pi, x4 * pi)" using k xk by (simp add: ta_def)
  have sk: "sma_f ! k = inverse_cumulative_a d x5" using k xk by (simp add: sma_f_def)
  have a: "xa ! k = (if 0 < jf1 ! k then u_integrand_pt d j (sma_f ! k) (jf1 ! k) lnnp (ta ! k) else 0)"
    unfolding xa_def
    using k l1 ls
    by (simp add: u_integrand_select ix1_def mask_assign_map_select x0_def)
  have b: "xb ! k = (if 0 < jf2 ! k then u_integrand_pt d j (sma_f ! k) (jf2 ! k) lnnp (ta ! k) else xa ! k)"
    unfolding xb_def
    using k l2 ls la
    by (simp add: u_integrand_select ix2_def mask_assign_map_select)
  have "length xb = length x" by (simp add: xb_def length_mask_assign la)
  with res a b tak sk show ?thesis by simp
qed

text \<open>
  Claim C1 at \<open>flip_drr\<close>, the triple \<open>(l, n, n') = (2, 2, 1)\<close> and the batch of the
  single sample \<open>(0, 0, 0, 0, 4/9)\<close>, whose partner axis is 5. Both branches have a
  solution there (\<open>jf1 > 0\<close> and \<open>jf2 > 0\<close>) and the branch-1 contribution is
  positive, yet \<open>Clnnp\<close> returns the branch-2 contribution alone, not the sum of
  the two: the assignment \<open>x[ix2] = ...\<close> replaces what \<open>x[ix1] = ...\<close> stored.
\<close>

theorem Clnnp_overwrites_branch1:
  "\<exists>ri y1 y2 r.
      u_res_intrp flip_drr 2 = Inr ri
    \<and> get_jf1 ri (1 / 10 * 2) [inverse_cumulative_a flip_drr (4 / 9)] = Inr [y1] \<and> 0 < y1
    \<and> get_jf2 ri (1 / 10 * 2) [inverse_cumulative_a flip_drr (4 / 9)] = Inr [y2] \<and> 0 < y2
    \<and> Clnnp flip_drr (1 / 10) (1 / 10) (2, 2, 1) 2 [(0, 0, 0, 0, 4 / 9)] = Inr [r]
    \<and> r = u_integrand_pt flip_drr (1 / 10) 5 y2 (2, 2, 1) (0, 0, 0, 0)
    \<and> 0 < u_integrand_pt flip_drr (1 / 10) 5 y1 (2, 2, 1) (0, 0, 0, 0)
    \<and> r \<noteq> u_integrand_pt flip_drr (1 / 10) 5 y1 (2, 2, 1) (0, 0, 0, 0)
           + u_integrand_pt flip_drr (1 / 10) 5 y2 (2, 2, 1) (0, 0, 0, 0)"
proof -
  obtain ri where ri: "ResInterp_init flip_drr [1 / 5] = Inr ri"
    and om: "RI_omega ri = [1 / 5]" and af: "RI_af ri = logspace 0 1 1000"
    and l: "length (RI_j1 ri) = 1000" "length (RI_j2 ri) = 1000"
    and mid: "\<And>r. 1 \<le> r \<Longrightarrow> r \<le> 998 \<Longrightarrow>
           1 / 10 \<le> RI_j1 ri ! r ! 0 \<and> RI_j1 ri ! r ! 0 < 1
           \<and> 1 / 10 \<le> RI_j2 ri ! r ! 0 \<and> RI_j2 ri ! r ! 0 < 1"
    and r0: "RI_j1 ri ! 0 ! 0 = 0 \<or> (1 / 10 \<le> RI_j1 ri ! 0 ! 0 \<and> RI_j1 ri ! 0 ! 0 < 1)"
    and z: "RI_j2 ri ! 0 ! 0 = 0" "RI_j1 ri ! 999 ! 0 = 0" "RI_j2 ri ! 999 ! 0 = 0"
    using flip_init by blast
  have u: "u_res_intrp flip_drr 2 = Inr ri"
    using ri by (simp add: u_res_intrp_def flip_grid)
  have cases: "r = 0 \<or> (1 \<le> r \<and> r \<le> 998) \<or> r = 999" if "r < 1000" for r :: nat
    using that by linarith
  have rest1: "RI_j1 ri ! r ! 0 = 0 \<or> (1 / 10 \<le> RI_j1 ri ! r ! 0 \<and> RI_j1 ri ! r ! 0 < 1)"
    if "r < 1000" for r
    using cases [OF that] mid [of r] r0 z by auto
  have rest2: "RI_j2 ri ! r ! 0 = 0 \<or> (1 / 10 \<le> RI_j2 ri ! r ! 0 \<and> RI_j2 ri ! r ! 0 < 1)"
    if "r < 1000" for r
    using cases [OF that] mid [of r] z by auto
  obtain y1 where y1: "get_jf1 ri (1 / 5) [5] = Inr [y1]" "0 < y1" "y1 < 1"
    using flip_lookup [OF l(1), of ] mid rest1 unfolding flip_get_jf(1) [OF om af] by blast
  obtain y2 where y2: "get_jf2 ri (1 / 5) [5] = Inr [y2]" "0 < y2" "y2 < 1"
    using flip_lookup [OF l(2)] mid rest2 unfolding flip_get_jf(2) [OF om af] by blast
  have s: "map (\<lambda>(x1, x2, x3, x4, x5). inverse_cumulative_a flip_drr x5) [(0, 0, 0, 0, 4 / 9)] = [5]"
    by (simp add: flip_simps)
  from Clnnp_branches [of flip_drr 2 ri "1 / 10" "[(0, 0, 0, 0, 4 / 9)]" "[y1]" "[y2]" 0 0 0 0 0 "4 / 9"
      "1 / 10" "(2, 2, 1)"]
  obtain rs where rs: "Clnnp flip_drr (1 / 10) (1 / 10) (2, 2, 1) 2 [(0, 0, 0, 0, 4 / 9)] = Inr rs"
    "length rs = 1" "rs ! 0 = u_integrand_pt flip_drr (1 / 10) 5 y2 (2, 2, 1) (0, 0, 0, 0)"
    using u y1 y2 by (auto simp: s flip_simps)
  then obtain r where r: "rs = [r]" by (cases rs) auto
  have pos1: "0 < u_integrand_pt flip_drr (1 / 10) 5 y1 (2, 2, 1) (0, 0, 0, 0)"
    using A2_integrand_pt_pos [of 1 "1 / 10" 5 y1 2 2 1] y1
    by (simp add: u_integrand_pt_def flip_simps)
  show ?thesis
    using u y1 y2 rs r pos1 by (intro exI [of _ ri] exI [of _ y1] exI [of _ y2] exI [of _ r]) (simp add: flip_simps)
qed

subsection \<open>The shape of the tables\<close>

text \<open>
  The constructor builds tables of the shape \<open>wf_ResInterp\<close>: one row per axis
  sample and one entry per target frequency.
\<close>

lemma ResInterp_init_wf:
  assumes init: "ResInterp_init c omega = Inr ri"
  shows "wf_ResInterp ri"
proof -
  note R = ResInterp_init_Inr [OF init]
  define nb where "nb = length (below_axis c omega)"
  define na where "na = length (above_axis c omega)"
  have rows: "length (RI_j1 ri ! r) = length omega \<and> length (RI_j2 ri ! r) = length omega"
    if r: "r < length (axis c omega)" for r
  proof -
    consider "r < nb" | "nb \<le> r" "r < nb + na" | "nb + na \<le> r" by linarith
    then show ?thesis
    proof cases
      case 1
      then have "row1 c omega (below_axis c omega ! r) = Inr (RI_j1 ri ! r)"
        "RI_j2 ri ! r = replicate (length omega) 0"
        using R(8) [of r] by (simp_all add: nb_def)
      then show ?thesis using get_j_length [of omega _ _ "RI_j1 ri ! r"] by (simp add: row1_def)
    next
      case 2
      define k where "k = r - nb"
      have k: "k < length (above_axis c omega)" "nb + k = r" using 2 by (simp_all add: k_def na_def)
      note K = R(9) [OF k(1), folded nb_def, unfolded k(2)]
      have "row1 c omega (above_axis c omega ! k) = Inr (RI_j1 ri ! r)" using K by blast
      then have 1: "length (RI_j1 ri ! r) = length omega"
        unfolding row1_def by (rule get_j_length)
      have 2: "length (RI_j2 ri ! r) = length omega"
      proof (cases "flips c (above_axis c omega ! k)")
        case True
        then have "row2 c omega (above_axis c omega ! k) = Inr (RI_j2 ri ! r)" using K by simp
        then show ?thesis unfolding row2_def by (rule get_j_length)
      next
        case False
        then show ?thesis using K by simp
      qed
      from 1 2 show ?thesis by simp
    next
      case 3
      then show ?thesis using R(10) [of r] r by (simp add: nb_def na_def)
    qed
  qed
  show ?thesis
    unfolding wf_ResInterp_def list_all_length using R(4,5,6,7) rows by simp
qed

end
